theory Spec2Isabelle
  imports Main
begin

section \<open>The reflective iKnow query dispatcher of IRIS-NLP.ipynb\<close>

text \<open>
  The notebook cell defines two Python functions, \<open>iknow_query\<close> and \<open>iknow_macro\<close>.
  Both talk to an IRIS instance through the Native API object \<open>irispy\<close>. The embedding
  follows the cell statement by statement. Python exceptions are values of a sum type,
  the globals of the IRIS namespace are an explicit store that is passed through, and
  what the IRIS server and the \<open>iris\<close> package do (class dictionary lookups, the remote
  class method, decoding of a \<open>$list\<close>) is taken as a parameter, since none of it is
  part of the notebook. So is \<open>str.upper()\<close>, the case mapping of the Python
  interpreter. A string is the list of its bytes; the cell cuts strings only at the
  ASCII characters \<open>,\<close> \<open>:\<close> \<open>=\<close> \<open>&\<close> \<open>*\<close> \<open>$\<close> and the space, where bytes and characters agree.
\<close>

subsection \<open>Values, exceptions and strings\<close>

text \<open>Python values that travel through the dispatcher: caller arguments, defaults, cells.\<close>

datatype val = PyNone | PyStr string | PyInt int

text \<open>
  The exceptions the cell itself can raise are \<open>IndexError\<close> (an index past the end of
  a list or of a string) and \<open>AttributeError\<close> (a method called on \<open>None\<close>). Whatever is
  raised inside the Native API or by the server is \<open>IrisError\<close>.
\<close>

datatype error = IndexError | AttributeError | IrisError string

text \<open>\<open>s.split(c)\<close> for a one-character separator: never empty, \<open>''.split(c) == ['']\<close>.\<close>

fun split :: "char \<Rightarrow> string \<Rightarrow> string list" where
  "split c [] = [[]]"
| "split c (x # xs) =
     (if x = c then [] # split c xs
      else (case split c xs of [] \<Rightarrow> [[x]] | y # ys \<Rightarrow> (x # y) # ys))"

text \<open>\<open>xs[i]\<close> for \<open>i \<ge> 0\<close>: raises \<open>IndexError\<close> past the end.\<close>

definition index :: "'a list \<Rightarrow> nat \<Rightarrow> error + 'a" where
  "index xs i = (if i < length xs then Inr (xs ! i) else Inl IndexError)"

text \<open>\<open>list(map(f, xs))\<close> where \<open>f\<close> may raise: the first exception ends the map.\<close>

fun map_raising :: "('a \<Rightarrow> error + 'b) \<Rightarrow> 'a list \<Rightarrow> error + 'b list" where
  "map_raising f [] = Inr []"
| "map_raising f (x # xs) =
     (case f x of Inl e \<Rightarrow> Inl e
      | Inr y \<Rightarrow> (case map_raising f xs of Inl e \<Rightarrow> Inl e | Inr ys \<Rightarrow> Inr (y # ys)))"

text \<open>\<open>d[k] = v\<close> on a dict, which keeps insertion order: an existing key keeps its place.\<close>

fun dict_set :: "'k \<Rightarrow> 'v \<Rightarrow> ('k \<times> 'v) list \<Rightarrow> ('k \<times> 'v) list" where
  "dict_set k v [] = [(k, v)]"
| "dict_set k v (p # ps) = (if fst p = k then (k, v) # ps else p # dict_set k v ps)"

text \<open>\<open>{**a, **b}\<close>: the entries of \<open>b\<close> are stored into \<open>a\<close> one after the other.\<close>

definition dict_merge :: "('k \<times> 'v) list \<Rightarrow> ('k \<times> 'v) list \<Rightarrow> ('k \<times> 'v) list" where
  "dict_merge a b = fold (\<lambda>(k, v) d. dict_set k v d) b a"

subsection \<open>The IRIS side\<close>

text \<open>
  A global is a sparse array of nodes under integer subscripts; a node holds a string
  (for the result global, the bytes of a \<open>$list\<close>). The namespace maps the name of a
  global to its nodes. \<open>invoked\<close> records the class method calls issued through
  \<open>classMethodVoid\<close>, each with its full argument list, in the order they were made.
\<close>

type_synonym global = "(int \<times> string) list"

record world =
  globals :: "val \<Rightarrow> global"
  invoked :: "(string \<times> string \<times> val list) list"

text \<open>
  What the notebook does not contain. \<open>str_upper\<close> is \<open>str.upper()\<close>, which upper-cases
  every cased character of a string, not only the letters a to z; nothing is assumed
  of it. \<open>Default_of\<close> is
  \<open>irispy.classMethodValue('%Dictionary.ParameterDefinition', '%OpenId', id).get('Default')\<close>
  and \<open>FormalSpec_of\<close> the same for \<open>%Dictionary.CompiledMethod\<close> and \<open>'FormalSpec'\<close>;
  both may raise. \<open>method_body\<close> is what the called class method does to the globals,
  and the exception it ends with, if any. \<open>IRISList\<close> is the constructor of
  \<open>iris.IRISList\<close> from bytes and \<open>IRISList_get\<close> its one-based \<open>get\<close>.
\<close>

record 'l iris =
  str_upper :: "string \<Rightarrow> string"
  Default_of :: "string \<Rightarrow> error + string"
  FormalSpec_of :: "string \<Rightarrow> error + string"
  method_body :: "string \<Rightarrow> string \<Rightarrow> val list \<Rightarrow> (val \<Rightarrow> global) \<Rightarrow> error option \<times> (val \<Rightarrow> global)"
  IRISList :: "string \<Rightarrow> error + 'l"
  IRISList_get :: "'l \<Rightarrow> nat \<Rightarrow> error + val"

text \<open>
  \<open>irispy.nextSubscript(0, g, s)\<close>: the least subscript of \<open>g\<close> above \<open>s\<close>, \<open>None\<close>
  when there is none. The cell only ever asks in forward direction.
\<close>

fun nextSubscript :: "global \<Rightarrow> int \<Rightarrow> int option" where
  "nextSubscript [] s = None"
| "nextSubscript ((k, x) # g) s =
     (case nextSubscript g s of
        None \<Rightarrow> (if s < k then Some k else None)
      | Some m \<Rightarrow> (if s < k \<and> k < m then Some k else Some m))"

text \<open>\<open>irispy.getString(g, s)\<close> and \<open>irispy.getBytes(g, s)\<close>: \<open>None\<close> for a node not set.\<close>

definition getString :: "global \<Rightarrow> int \<Rightarrow> string option" where
  "getString g s = map_of g s"

definition getBytes :: "global \<Rightarrow> int \<Rightarrow> string option" where
  "getBytes g s = map_of g s"

text \<open>\<open>irispy.kill(name)\<close> removes every node of the global.\<close>

definition kill :: "val \<Rightarrow> world \<Rightarrow> world" where
  "kill name w = w\<lparr>globals := (globals w)(name := [])\<rparr>"

text \<open>
  \<open>irispy.classMethodVoid(api, method, *argv)\<close>: the call is recorded, the method body
  runs on the globals, and its exception, if any, is raised to the caller.
\<close>

definition classMethodVoid ::
  "'l iris \<Rightarrow> string \<Rightarrow> string \<Rightarrow> val list \<Rightarrow> world \<Rightarrow> error option \<times> world" where
  "classMethodVoid lib api method argv w =
     (let (r, g) = method_body lib api method argv (globals w)
      in (r, w\<lparr>globals := g, invoked := invoked w @ [(api, method, argv)]\<rparr>))"

subsection \<open>\<open>iknow_macro\<close>\<close>

text \<open>The number of nodes of a global above a subscript: what is left of a forward scan.\<close>

definition remaining :: "global \<Rightarrow> int \<Rightarrow> nat" where
  "remaining g s = length (filter (\<lambda>k. s < k) (map fst g))"

lemma nextSubscript_above: "nextSubscript g s = Some k \<Longrightarrow> s < k"
  by (induction g arbitrary: k) (auto split: option.splits if_splits)

lemma nextSubscript_mem: "nextSubscript g s = Some k \<Longrightarrow> k \<in> fst ` set g"
  by (induction g arbitrary: k) (force split: option.splits if_splits)+

lemma remaining_decreases:
  assumes "nextSubscript g s = Some k"
  shows "remaining g k < remaining g s"
proof -
  have above: "s < k" and mem: "k \<in> set (map fst g)"
    using assms nextSubscript_above nextSubscript_mem by fastforce+
  have step: "length (filter (\<lambda>j. k < j) xs) < length (filter (\<lambda>j. s < j) xs)"
    if "k \<in> set xs" for xs
    using that above
  proof (induction xs)
    case Nil
    then show ?case by simp
  next
    case (Cons x xs)
    have le: "length (filter (\<lambda>j. k < j) xs) \<le> length (filter (\<lambda>j. s < j) xs)"
      using above by (induction xs) auto
    show ?case
    proof (cases "x = k")
      case True
      then show ?thesis using le above by simp
    next
      case False
      then show ?thesis using Cons by auto
    qed
  qed
  show ?thesis unfolding remaining_def by (rule step [OF mem])
qed

text \<open>The name under which the cell reads the include file \<open>%IKPublic.INC\<close>.\<close>

definition rINC :: val where
  \<open>rINC = PyStr ''rINC("%IKPublic",0)''\<close>

text \<open>
  The \<open>while True\<close> loop of \<open>iknow_macro\<close>, entered with the current \<open>subscript\<close>. A
  matching line with only two fields raises at \<open>raw_line[2]\<close>.
\<close>

function macro_scan :: "global \<Rightarrow> string \<Rightarrow> int \<Rightarrow> error + val" where
  "macro_scan g macro subscript =
     (case nextSubscript g subscript of
        None \<Rightarrow> Inr PyNone
      | Some s \<Rightarrow>
          (case getString g s of
             None \<Rightarrow> Inl AttributeError
           | Some line \<Rightarrow>
               (if length (split CHR '' '' line) > 1 \<and> split CHR '' '' line ! 1 = macro
                then (case index (split CHR '' '' line) 2 of
                        Inl e \<Rightarrow> Inl e
                      | Inr value \<Rightarrow> Inr (PyStr value))
                else macro_scan g macro s)))"
  by pat_completeness auto
termination
  by (relation "measure (\<lambda>(g, macro, subscript). remaining g subscript)")
     (auto simp: remaining_decreases)

declare macro_scan.simps [simp del]

definition iknow_macro :: "world \<Rightarrow> string \<Rightarrow> error + val" where
  "iknow_macro w macro =
     macro_scan (globals w rINC) (if take 3 macro = ''$$$'' then drop 3 macro else macro) 0"

subsection \<open>\<open>iknow_query\<close>: binding the arguments\<close>

text \<open>
  \<open>kwupper\<close>: every keyword argument but \<open>outGlo\<close>, under its name upper-cased by
  \<open>up\<close>, which stands for \<open>str.upper()\<close> here and in the definitions that follow. The
  entries are stored in the order of \<open>kwargs.items()\<close>, so of two names that agree up to
  letter case the later one stays.
\<close>

definition outGlo_key :: string where
  "outGlo_key = ''outGlo''"

definition kwupper_of :: "(string \<Rightarrow> string) \<Rightarrow> (string \<times> val) list \<Rightarrow> (string \<rightharpoonup> val)" where
  "kwupper_of up kwargs =
     fold (\<lambda>(k, v) kwupper. if k = outGlo_key then kwupper else kwupper(up k \<mapsto> v))
       kwargs Map.empty"

text \<open>The default literal that stands for the empty string: two double quotes.\<close>

definition empty_literal :: string where
  "empty_literal = [CHR 0x22, CHR 0x22]"

text \<open>
  \<open>argument_name\<close> of one entry of the formal spec: a leading \<open>&\<close> or \<open>*\<close> is dropped,
  then the text before the first \<open>=\<close> and before the first \<open>:\<close> is upper-cased. The
  entry is indexed at 0 first, so an empty entry raises.
\<close>

definition strip_marker :: "string \<Rightarrow> error + string" where
  "strip_marker argument =
     (case argument of
        [] \<Rightarrow> Inl IndexError
      | c # rest \<Rightarrow> Inr (if c = CHR ''&'' \<or> c = CHR ''*'' then rest else argument))"

definition argument_name :: "(string \<Rightarrow> string) \<Rightarrow> string list \<Rightarrow> string" where
  "argument_name up argument = up (hd (split CHR '':'' (hd argument)))"

text \<open>
  The body of the \<open>for i, argument in enumerate(raw)\<close> loop for \<open>i \<ge> 2\<close>: the value
  appended to \<open>full_args\<close> for the parameter at position \<open>i\<close>.
\<close>

definition bind_argument ::
  "(string \<Rightarrow> string) \<Rightarrow> world \<Rightarrow> (string \<rightharpoonup> val) \<Rightarrow> val list \<Rightarrow> nat \<Rightarrow> string
     \<Rightarrow> error + val" where
  "bind_argument up w kwupper args i argument0 =
     (case strip_marker argument0 of
        Inl e \<Rightarrow> Inl e
      | Inr stripped \<Rightarrow>
          (let argument = split CHR ''='' stripped in
           case kwupper (argument_name up argument) of
             Some v \<Rightarrow> Inr v
           | None \<Rightarrow>
               if length args > i - 2 then Inr (args ! (i - 2))
               else if length argument > 1 then
                 (let default = argument ! 1 in
                  if default = empty_literal then Inr (PyStr [])
                  else if take 3 default = ''$$$'' then iknow_macro w default
                  else Inr (PyStr (argument ! 1)))
               else Inr PyNone))"

text \<open>The loop itself, from position \<open>i\<close> on, with the \<open>full_args\<close> built so far.\<close>

fun bind_arguments ::
  "(string \<Rightarrow> string) \<Rightarrow> world \<Rightarrow> (string \<rightharpoonup> val) \<Rightarrow> val list \<Rightarrow> nat \<Rightarrow> string list \<Rightarrow> val list
     \<Rightarrow> error + val list" where
  "bind_arguments up w kwupper args i [] full_args = Inr full_args"
| "bind_arguments up w kwupper args i (argument # raw) full_args =
     (if i < 2 then bind_arguments up w kwupper args (i + 1) raw full_args
      else (case bind_argument up w kwupper args i argument of
              Inl e \<Rightarrow> Inl e
            | Inr v \<Rightarrow> bind_arguments up w kwupper args (i + 1) raw (full_args @ [v])))"

subsection \<open>\<open>iknow_query\<close>: reading the result global\<close>

text \<open>A result row: a dict from column name to cell, in insertion order.\<close>

type_synonym row = "(string \<times> val) list"

text \<open>
  \<open>for i, col in enumerate(return_cols): row[col] = raw_row.get(i+1)\<close>, from position
  \<open>i\<close> on. Every column is stored, whatever the length of the row's list.
\<close>

fun fill_row :: "'l iris \<Rightarrow> 'l \<Rightarrow> nat \<Rightarrow> string list \<Rightarrow> row \<Rightarrow> error + row" where
  "fill_row lib raw_row i [] row = Inr row"
| "fill_row lib raw_row i (col # cols) row =
     (case IRISList_get lib raw_row (i + 1) of
        Inl e \<Rightarrow> Inl e
      | Inr cell \<Rightarrow> fill_row lib raw_row (i + 1) cols (dict_set col cell row))"

text \<open>The \<open>while True\<close> loop over the output global, with the rows read so far.\<close>

function read_rows ::
  "'l iris \<Rightarrow> global \<Rightarrow> string list \<Rightarrow> int \<Rightarrow> row list \<Rightarrow> error + row list" where
  "read_rows lib g return_cols subscript result =
     (case nextSubscript g subscript of
        None \<Rightarrow> Inr result
      | Some s \<Rightarrow>
          (case getBytes g s of
             None \<Rightarrow> Inl (IrisError ''IRISList'')
           | Some bytes \<Rightarrow>
               (case IRISList lib bytes of
                  Inl e \<Rightarrow> Inl e
                | Inr raw_row \<Rightarrow>
                    (case fill_row lib raw_row 0 return_cols [] of
                       Inl e \<Rightarrow> Inl e
                     | Inr row \<Rightarrow> read_rows lib g return_cols s (result @ [row])))))"
  by pat_completeness auto
termination
  by (relation "measure (\<lambda>(lib, g, return_cols, subscript, result). remaining g subscript)")
     (auto simp: remaining_decreases)

declare read_rows.simps [simp del]

subsection \<open>\<open>iknow_query\<close>\<close>

text \<open>
  The whole function. It returns the rows or the exception raised, together with the
  world it leaves behind. \<open>kwargs0\<close> are the keyword arguments of the call, in the
  order given. Two reads cannot fail and are written without an error branch:
  \<open>kwargs['outGlo']\<close>, since the key has just been stored (\<open>outGlo_present\<close> below),
  and index 0 of the result of \<open>split\<close>, which is never empty (\<open>split_not_Nil\<close>).
\<close>

definition default_outGlo :: val where
  "default_outGlo = PyStr ''^result''"

definition iknow_query ::
  "'l iris \<Rightarrow> string \<Rightarrow> string \<Rightarrow> val \<Rightarrow> val list \<Rightarrow> (string \<times> val) list \<Rightarrow> world
     \<Rightarrow> (error + row list) \<times> world" where
  "iknow_query lib api method domain_id args kwargs0 w =
     (let kwargs = dict_merge [(outGlo_key, default_outGlo)] kwargs0;
          outGlo = the (map_of kwargs outGlo_key)
      in case Default_of lib (api @ ''||'' @ method @ ''RT'') of
           Inl e \<Rightarrow> (Inl e, w)
         | Inr rt \<Rightarrow>
             (let raw = split CHR '','' rt;
                  return_cols = map (\<lambda>x. hd (split CHR '':'' x)) raw
              in case map_raising (\<lambda>x. index (split CHR '':'' x) 1) raw of
                   Inl e \<Rightarrow> (Inl e, w)
                 | Inr return_types \<Rightarrow>
                     (case FormalSpec_of lib (api @ ''||'' @ method) of
                        Inl e \<Rightarrow> (Inl e, w)
                      | Inr formal_spec \<Rightarrow>
                          (case bind_arguments (str_upper lib) w
                                  (kwupper_of (str_upper lib) kwargs) args 0
                                  (split CHR '','' formal_spec) [] of
                             Inl e \<Rightarrow> (Inl e, w)
                           | Inr full_args \<Rightarrow>
                               (case classMethodVoid lib api method
                                       (outGlo # domain_id # full_args) w of
                                  (Some e, w1) \<Rightarrow> (Inl e, w1)
                                | (None, w1) \<Rightarrow>
                                    (case read_rows lib (globals w1 outGlo) return_cols 0 [] of
                                       Inl e \<Rightarrow> (Inl e, w1)
                                     | Inr result \<Rightarrow> (Inr result, kill outGlo w1)))))))"

text \<open>
  The parts of \<open>iknow_query\<close> by name: the output global chosen by the call, the
  \<open>full_args\<close> built from the formal spec, and the two lists read off the \<open>Default\<close>
  string. \<open>iknow_query_stages\<close> below shows that \<open>iknow_query\<close> is their composition.
\<close>

definition outGlo_of :: "(string \<times> val) list \<Rightarrow> val" where
  "outGlo_of kwargs = the (map_of (dict_merge [(outGlo_key, default_outGlo)] kwargs) outGlo_key)"

definition full_args_of ::
  "(string \<Rightarrow> string) \<Rightarrow> world \<Rightarrow> val list \<Rightarrow> (string \<times> val) list \<Rightarrow> string \<Rightarrow> error + val list" where
  "full_args_of up w args kwargs formal_spec =
     bind_arguments up w (kwupper_of up (dict_merge [(outGlo_key, default_outGlo)] kwargs)) args 0
       (split CHR '','' formal_spec) []"

definition return_cols_of :: "string \<Rightarrow> string list" where
  "return_cols_of rt = map (\<lambda>x. hd (split CHR '':'' x)) (split CHR '','' rt)"

definition return_types_of :: "string \<Rightarrow> error + string list" where
  "return_types_of rt = map_raising (\<lambda>x. index (split CHR '':'' x) 1) (split CHR '','' rt)"

subsection \<open>Example instances\<close>

text \<open>
  Upper-casing of ASCII text: the letters a to z are moved to A to Z and every other
  character stays. On a string of ASCII characters this is what \<open>str.upper()\<close> does,
  and the examples below use no other strings.
\<close>

definition ascii_upper_char :: "char \<Rightarrow> char" where
  "ascii_upper_char c =
     (let n = (of_char c :: nat) in if 97 \<le> n \<and> n \<le> 122 then char_of (n - 32) else c)"

definition ascii_upper :: "string \<Rightarrow> string" where
  "ascii_upper s = map ascii_upper_char s"

text \<open>
  A small IRIS to run the cell on: the class dictionary answers every id with the same
  two strings, a \<open>$list\<close> is written as its fields joined by \<open>;\<close>, and \<open>get\<close> past the
  end of a list answers with \<open>past_end\<close>.
\<close>

definition example_iris ::
  "string \<Rightarrow> string
     \<Rightarrow> (string \<Rightarrow> string \<Rightarrow> val list \<Rightarrow> (val \<Rightarrow> global) \<Rightarrow> error option \<times> (val \<Rightarrow> global))
     \<Rightarrow> error + val \<Rightarrow> string list iris" where
  "example_iris rt formal_spec body past_end =
     \<lparr>str_upper = ascii_upper,
      Default_of = (\<lambda>id. Inr rt),
      FormalSpec_of = (\<lambda>id. Inr formal_spec),
      method_body = body,
      IRISList = (\<lambda>bytes. Inr (split CHR '';'' bytes)),
      IRISList_get = (\<lambda>l i. if 1 \<le> i \<and> i \<le> length l then Inr (PyStr (l ! (i - 1))) else past_end)\<rparr>"

text \<open>A method that stores the given nodes under its first argument and returns.\<close>

definition writes :: "global \<Rightarrow> string \<Rightarrow> string \<Rightarrow> val list \<Rightarrow> (val \<Rightarrow> global) \<Rightarrow> error option \<times> (val \<Rightarrow> global)" where
  "writes nodes api method argv g = (None, g(hd argv := nodes))"

text \<open>A method that stores the given nodes and then fails.\<close>

definition writes_then_raises :: "global \<Rightarrow> string \<Rightarrow> string \<Rightarrow> val list \<Rightarrow> (val \<Rightarrow> global) \<Rightarrow> error option \<times> (val \<Rightarrow> global)" where
  "writes_then_raises nodes api method argv g = (Some (IrisError ''<UNDEFINED>''), g(hd argv := nodes))"

text \<open>A namespace whose only global is the include file, with the given lines.\<close>

definition world_with_macros :: "global \<Rightarrow> world" where
  "world_with_macros lines = \<lparr>globals = (\<lambda>name. if name = rINC then lines else []), invoked = []\<rparr>"

section \<open>Properties\<close>

subsection \<open>Auxiliary facts about strings and maps over lists\<close>

lemma split_not_Nil: "split c s \<noteq> []"
  by (induction s) (auto split: list.splits)

lemma split_without_separator: "c \<notin> set s \<Longrightarrow> split c s = [s]"
  by (induction s) auto

lemma index_error: "index xs i = Inl e \<Longrightarrow> e = IndexError"
  by (auto simp: index_def split: if_splits)

lemma map_raising_IndexError:
  assumes "x \<in> set xs" and "f x = Inl IndexError"
    and "\<And>y e. f y = Inl e \<Longrightarrow> e = IndexError"
  shows "map_raising f xs = Inl IndexError"
  using assms(1)
proof (induction xs)
  case Nil
  then show ?case by simp
next
  case (Cons a xs)
  show ?case
  proof (cases "f a")
    case (Inl e)
    then show ?thesis using assms(3) by simp
  next
    case (Inr y)
    then have "x \<in> set xs" using Cons.prems assms(2) by auto
    then have "map_raising f xs = Inl IndexError" by (rule Cons.IH)
    then show ?thesis using Inr by simp
  qed
qed

subsection \<open>The keyword dictionary\<close>

text \<open>
  What \<open>kwupper\<close> holds: nothing for a name no keyword argument has, and for a name
  some keyword arguments have, the value of the last of them. With distinct keyword
  names, merging into the default \<open>outGlo\<close> entry only moves \<open>outGlo\<close> to the front.
\<close>

lemma dict_set_new: "k \<notin> fst ` set d \<Longrightarrow> dict_set k v d = d @ [(k, v)]"
  by (induction d) auto



lemma dict_merge_outGlo:
  assumes "distinct (map fst b)" and "fst ` set acc \<inter> fst ` set b = {}" and "ky \<notin> fst ` set acc"
  shows "dict_merge ((ky, x) # acc) b =
           (ky, case map_of b ky of Some v \<Rightarrow> v | None \<Rightarrow> x) # acc @ filter (\<lambda>p. fst p \<noteq> ky) b"
  using assms
proof (induction b arbitrary: x acc)
  case Nil
  then show ?case by (simp add: dict_merge_def)
next
  case (Cons p b)
  obtain k v where p: "p = (k, v)" by (cases p)
  have unfold: "dict_merge ((ky, x) # acc) (p # b) = dict_merge (dict_set k v ((ky, x) # acc)) b"
    by (simp add: dict_merge_def p)
  have db: "distinct (map fst b)" and kb: "k \<notin> fst ` set b"
    using Cons.prems(1) p by auto
  show ?case
  proof (cases "k = ky")
    case True
    have "dict_merge ((ky, v) # acc) b =
            (ky, case map_of b ky of Some v' \<Rightarrow> v' | None \<Rightarrow> v) # acc @ filter (\<lambda>p. fst p \<noteq> ky) b"
      using Cons.prems db by (intro Cons.IH) auto
    moreover have "map_of b ky = None" using kb True by (simp add: map_of_eq_None_iff)
    ultimately show ?thesis using unfold True p by simp
  next
    case False
    have knew: "k \<notin> fst ` set acc" using Cons.prems(2) p by auto
    have "dict_merge ((ky, x) # acc @ [(k, v)]) b =
            (ky, case map_of b ky of Some v' \<Rightarrow> v' | None \<Rightarrow> x) # (acc @ [(k, v)]) @ filter (\<lambda>p. fst p \<noteq> ky) b"
      using Cons.prems db kb False by (intro Cons.IH) auto
    then show ?thesis using unfold False p knew by (simp add: dict_set_new)
  qed
qed

lemma kwupper_fold_other:
  assumes "\<And>k v. (k, v) \<in> set d \<Longrightarrow> k \<noteq> outGlo_key \<Longrightarrow> up k \<noteq> name"
  shows "fold (\<lambda>(k, v) kwupper. if k = outGlo_key then kwupper else kwupper(up k \<mapsto> v)) d m name = m name"
  using assms
proof (induction d arbitrary: m)
  case Nil
  then show ?case by simp
next
  case (Cons p d)
  obtain k v where p: "p = (k, v)" by (cases p)
  have rest: "fold (\<lambda>(k, v) kwupper. if k = outGlo_key then kwupper else kwupper(up k \<mapsto> v)) d m' name = m' name" for m'
    using Cons.prems by (intro Cons.IH) auto
  show ?case
  proof (cases "k = outGlo_key")
    case True
    then show ?thesis using rest p by simp
  next
    case False
    then have "up k \<noteq> name" using Cons.prems [of k v] p by simp
    then show ?thesis using rest False p by simp
  qed
qed

lemma kwupper_fold_filter:
  "fold (\<lambda>(k, v) kwupper. if k = outGlo_key then kwupper else kwupper(up k \<mapsto> v))
     (filter (\<lambda>p. fst p \<noteq> outGlo_key) d) m
   = fold (\<lambda>(k, v) kwupper. if k = outGlo_key then kwupper else kwupper(up k \<mapsto> v)) d m"
  by (induction d arbitrary: m) auto

lemma kwupper_of_merge:
  assumes "distinct (map fst kwargs)"
  shows "kwupper_of up (dict_merge [(outGlo_key, x)] kwargs) = kwupper_of up kwargs"
proof -
  have "dict_merge [(outGlo_key, x)] kwargs =
          (outGlo_key, case map_of kwargs outGlo_key of Some v \<Rightarrow> v | None \<Rightarrow> x)
            # [] @ filter (\<lambda>p. fst p \<noteq> outGlo_key) kwargs"
    using assms by (intro dict_merge_outGlo) auto
  then show ?thesis by (simp add: kwupper_of_def kwupper_fold_filter)
qed


lemma kwupper_of_last:
  assumes "k \<noteq> outGlo_key"
    and "\<And>k' v'. (k', v') \<in> set post \<Longrightarrow> k' \<noteq> outGlo_key \<Longrightarrow> up k' \<noteq> up k"
  shows "kwupper_of up (pre @ (k, v) # post) (up k) = Some v"
  using assms unfolding kwupper_of_def by (simp add: kwupper_fold_other)

lemma outGlo_present: "map_of (dict_merge [(outGlo_key, x :: val)] kwargs) outGlo_key \<noteq> None"
proof -
  have "outGlo_key \<in> fst ` set (fold (\<lambda>(k, v). dict_set k v) b a)" if "outGlo_key \<in> fst ` set a" for a b :: "(string \<times> val) list"
    using that
  proof (induction b arbitrary: a)
    case Nil then show ?case by simp
  next
    case (Cons p b)
    obtain k v where p: "p = (k, v)" by (cases p)
    have "fst ` set (dict_set k v a) = insert k (fst ` set a)" for a :: "(string \<times> val) list"
      by (induction a) auto
    then have "outGlo_key \<in> fst ` set (dict_set k v a)" using Cons.prems by simp
    from Cons.IH [OF this] show ?case by (simp add: p)
  qed
  from this [of "[(outGlo_key, x)]" kwargs] show ?thesis
    by (simp add: dict_merge_def map_of_eq_None_iff)
qed

subsection \<open>The binding loop\<close>


lemma bind_arguments_acc:
  assumes "bind_arguments up w kw args i raw acc = Inr full"
  shows "\<exists>vs. full = acc @ vs \<and> length vs = length raw - (2 - i) \<and>
           (\<forall>j < length raw. 2 \<le> i + j \<longrightarrow>
              bind_argument up w kw args (i + j) (raw ! j) = Inr (vs ! (j - (2 - i))))"
  using assms
proof (induction raw arbitrary: i acc)
  case Nil
  then show ?case by simp
next
  case (Cons a raw)
  show ?case
  proof (cases "i < 2")
    case True
    then have "bind_arguments up w kw args (i + 1) raw acc = Inr full"
      using Cons.prems by simp
    from Cons.IH [OF this] obtain vs where vs: "full = acc @ vs"
      "length vs = length raw - (2 - (i + 1))"
      "\<forall>j < length raw. 2 \<le> i + 1 + j \<longrightarrow>
          bind_argument up w kw args (i + 1 + j) (raw ! j) = Inr (vs ! (j - (2 - (i + 1))))"
      by blast
    have len: "length vs = length (a # raw) - (2 - i)"
      using vs(2) True by simp
    have "bind_argument up w kw args (i + j) ((a # raw) ! j) = Inr (vs ! (j - (2 - i)))"
      if "j < length (a # raw)" "2 \<le> i + j" for j
    proof -
      from that True obtain j' where j': "j = Suc j'" by (cases j) auto
      then have "j' < length raw" "2 \<le> i + 1 + j'" using that by auto
      with vs(3) have "bind_argument up w kw args (i + 1 + j') (raw ! j') = Inr (vs ! (j' - (2 - (i + 1))))"
        by blast
      moreover have "j' - (2 - (i + 1)) = j - (2 - i)" using j' True by simp
      ultimately show ?thesis using j' by simp
    qed
    with vs(1) len show ?thesis by blast
  next
    case False
    then obtain v where v: "bind_argument up w kw args i a = Inr v"
      and rest: "bind_arguments up w kw args (i + 1) raw (acc @ [v]) = Inr full"
      using Cons.prems by (auto split: sum.splits)
    from Cons.IH [OF rest] obtain vs where vs: "full = (acc @ [v]) @ vs"
      "length vs = length raw - (2 - (i + 1))"
      "\<forall>j < length raw. 2 \<le> i + 1 + j \<longrightarrow>
          bind_argument up w kw args (i + 1 + j) (raw ! j) = Inr (vs ! (j - (2 - (i + 1))))"
      by blast
    have "bind_argument up w kw args (i + j) ((a # raw) ! j) = Inr ((v # vs) ! (j - (2 - i)))"
      if "j < length (a # raw)" for j
    proof (cases j)
      case 0
      then show ?thesis using v False by simp
    next
      case (Suc j')
      then have "j' < length raw" "2 \<le> i + 1 + j'" using that False by auto
      with vs(3) have "bind_argument up w kw args (i + 1 + j') (raw ! j') = Inr (vs ! (j' - (2 - (i + 1))))"
        by blast
      then show ?thesis using Suc False by simp
    qed
    moreover have "full = acc @ (v # vs)" using vs(1) by simp
    moreover have "length (v # vs) = length (a # raw) - (2 - i)" using vs(2) False by simp
    ultimately show ?thesis by blast
  qed
qed

lemma bind_arguments_Inr:
  assumes "bind_arguments up w kw args 0 raw [] = Inr full_args"
  shows "length full_args = length raw - 2"
    and "\<And>i. 2 \<le> i \<Longrightarrow> i < length raw \<Longrightarrow> bind_argument up w kw args i (raw ! i) = Inr (full_args ! (i - 2))"
  using bind_arguments_acc [OF assms] by auto

subsection \<open>The stages of \<open>iknow_query\<close>\<close>

text \<open>
  \<open>iknow_query\<close> stage by stage, what is known when a call has been recorded and
  when rows are returned, and the only ways in which it depends on its arguments.
\<close>

lemma classMethodVoid_invoked:
  "classMethodVoid lib api method argv w = (r, w1) \<Longrightarrow> invoked w1 = invoked w @ [(api, method, argv)]"
  by (auto simp: classMethodVoid_def split: prod.splits)

lemma invoked_kill: "invoked (kill name w) = invoked w"
  by (simp add: kill_def)

lemma iknow_query_stages:
  "iknow_query lib api method domain_id args kwargs w =
     (case Default_of lib (api @ ''||'' @ method @ ''RT'') of
        Inl e \<Rightarrow> (Inl e, w)
      | Inr rt \<Rightarrow>
          (case return_types_of rt of
             Inl e \<Rightarrow> (Inl e, w)
           | Inr return_types \<Rightarrow>
               (case FormalSpec_of lib (api @ ''||'' @ method) of
                  Inl e \<Rightarrow> (Inl e, w)
                | Inr formal_spec \<Rightarrow>
                    (case full_args_of (str_upper lib) w args kwargs formal_spec of
                       Inl e \<Rightarrow> (Inl e, w)
                     | Inr full_args \<Rightarrow>
                         (case classMethodVoid lib api method
                                 (outGlo_of kwargs # domain_id # full_args) w of
                            (Some e, w1) \<Rightarrow> (Inl e, w1)
                          | (None, w1) \<Rightarrow>
                              (case read_rows lib (globals w1 (outGlo_of kwargs)) (return_cols_of rt) 0 [] of
                                 Inl e \<Rightarrow> (Inl e, w1)
                               | Inr result \<Rightarrow> (Inr result, kill (outGlo_of kwargs) w1)))))))"
  unfolding iknow_query_def Let_def outGlo_of_def full_args_of_def return_cols_of_def return_types_of_def
  by (rule refl)

lemma iknow_query_call:
  assumes "invoked (snd (iknow_query lib api method domain_id args kwargs w)) = invoked w @ [call]"
  shows "\<exists>formal_spec full_args.
           FormalSpec_of lib (api @ ''||'' @ method) = Inr formal_spec
         \<and> full_args_of (str_upper lib) w args kwargs formal_spec = Inr full_args
         \<and> call = (api, method, outGlo_of kwargs # domain_id # full_args)"
proof (cases "Default_of lib (api @ ''||'' @ method @ ''RT'')")
  case (Inl e)
  then show ?thesis using assms by (simp add: iknow_query_stages)
next
  case rt: (Inr rt)
  show ?thesis
  proof (cases "return_types_of rt")
    case (Inl e)
    then show ?thesis using assms rt by (simp add: iknow_query_stages)
  next
    case types: (Inr return_types)
    show ?thesis
    proof (cases "FormalSpec_of lib (api @ ''||'' @ method)")
      case (Inl e)
      then show ?thesis using assms rt types by (simp add: iknow_query_stages)
    next
      case spec: (Inr formal_spec)
      show ?thesis
      proof (cases "full_args_of (str_upper lib) w args kwargs formal_spec")
        case (Inl e)
        then show ?thesis using assms rt types spec by (simp add: iknow_query_stages)
      next
        case bound: (Inr full_args)
        obtain r w1 where call: "classMethodVoid lib api method (outGlo_of kwargs # domain_id # full_args) w = (r, w1)"
          by (cases "classMethodVoid lib api method (outGlo_of kwargs # domain_id # full_args) w")
        have "invoked (snd (iknow_query lib api method domain_id args kwargs w)) = invoked w1"
          using rt types spec bound call
          by (simp add: iknow_query_stages invoked_kill split: option.splits sum.splits)
        then show ?thesis
          using assms classMethodVoid_invoked [OF call] spec bound by simp
      qed
    qed
  qed
qed

lemma iknow_query_returns:
  assumes "iknow_query lib api method domain_id args kwargs w = (Inr result, w')"
  shows "\<exists>rt formal_spec full_args w1.
           Default_of lib (api @ ''||'' @ method @ ''RT'') = Inr rt
         \<and> FormalSpec_of lib (api @ ''||'' @ method) = Inr formal_spec
         \<and> full_args_of (str_upper lib) w args kwargs formal_spec = Inr full_args
         \<and> classMethodVoid lib api method (outGlo_of kwargs # domain_id # full_args) w = (None, w1)
         \<and> read_rows lib (globals w1 (outGlo_of kwargs)) (return_cols_of rt) 0 [] = Inr result
         \<and> w' = kill (outGlo_of kwargs) w1"
proof (cases "Default_of lib (api @ ''||'' @ method @ ''RT'')")
  case (Inl e)
  then show ?thesis using assms by (simp add: iknow_query_stages)
next
  case rt: (Inr rt)
  show ?thesis
  proof (cases "return_types_of rt")
    case (Inl e)
    then show ?thesis using assms rt by (simp add: iknow_query_stages)
  next
    case types: (Inr return_types)
    show ?thesis
    proof (cases "FormalSpec_of lib (api @ ''||'' @ method)")
      case (Inl e)
      then show ?thesis using assms rt types by (simp add: iknow_query_stages)
    next
      case spec: (Inr formal_spec)
      show ?thesis
      proof (cases "full_args_of (str_upper lib) w args kwargs formal_spec")
        case (Inl e)
        then show ?thesis using assms rt types spec by (simp add: iknow_query_stages)
      next
        case bound: (Inr full_args)
        obtain r w1 where call: "classMethodVoid lib api method (outGlo_of kwargs # domain_id # full_args) w = (r, w1)"
          by (cases "classMethodVoid lib api method (outGlo_of kwargs # domain_id # full_args) w")
        show ?thesis
        proof (cases r)
          case (Some e)
          then show ?thesis using assms rt types spec bound call by (simp add: iknow_query_stages)
        next
          case None
          show ?thesis
          proof (cases "read_rows lib (globals w1 (outGlo_of kwargs)) (return_cols_of rt) 0 []")
            case (Inl e)
            then show ?thesis using assms rt types spec bound call None by (simp add: iknow_query_stages)
          next
            case (Inr rows)
            then show ?thesis using assms rt types spec bound call None by (simp add: iknow_query_stages)
          qed
        qed
      qed
    qed
  qed
qed

lemma full_args_of_nth:
  assumes "full_args_of up w args kwargs formal_spec = Inr full_args"
    and "2 \<le> i" and "i < length (split CHR '','' formal_spec)"
  shows "bind_argument up w (kwupper_of up (dict_merge [(outGlo_key, default_outGlo)] kwargs)) args i
           (split CHR '','' formal_spec ! i) = Inr (full_args ! (i - 2))"
  using assms bind_arguments_Inr(2) unfolding full_args_of_def by blast

lemma argv_nth:
  assumes "invoked (snd (iknow_query lib api method domain_id args kwargs w)) = invoked w @ [(api', method', argv)]"
    and "FormalSpec_of lib (api @ ''||'' @ method) = Inr formal_spec"
    and "2 \<le> i" and "i < length (split CHR '','' formal_spec)"
  shows "bind_argument (str_upper lib) w (kwupper_of (str_upper lib) (dict_merge [(outGlo_key, default_outGlo)] kwargs)) args i
           (split CHR '','' formal_spec ! i) = Inr (argv ! i)"
proof -
  from iknow_query_call [OF assms(1)] assms(2) obtain full_args where
    bound: "full_args_of (str_upper lib) w args kwargs formal_spec = Inr full_args"
    and argv: "argv = outGlo_of kwargs # domain_id # full_args"
    by auto
  have "argv ! i = full_args ! (i - 2)"
    using argv assms(3) by (simp add: nth_Cons' numeral_2_eq_2)
  then show ?thesis using full_args_of_nth [OF bound assms(3,4)] by simp
qed











subsection \<open>The scan of the include file\<close>

text \<open>
  One round of the scan, and its three outcomes: \<open>None\<close> when no line matches, a
  value unless a matching line is too short, \<open>IndexError\<close> only on such a line.
\<close>

lemma nextSubscript_getString:
  assumes "nextSubscript g s = Some k"
  shows "\<exists>line. getString g k = Some line \<and> (k, line) \<in> set g"
proof -
  have "k \<in> fst ` set g" using assms by (rule nextSubscript_mem)
  then obtain line where "map_of g k = Some line"
    by (metis map_of_eq_None_iff not_Some_eq)
  then show ?thesis by (auto simp: getString_def dest: map_of_SomeD)
qed

lemma macro_scan_end:
  "nextSubscript g subscript = None \<Longrightarrow> macro_scan g macro subscript = Inr PyNone"
  by (subst macro_scan.simps) (simp only: option.case)

lemma macro_scan_step:
  assumes "nextSubscript g subscript = Some s" and "getString g s = Some line"
  shows "macro_scan g macro subscript =
           (if 1 < length (split CHR '' '' line) \<and> split CHR '' '' line ! 1 = macro
            then (case index (split CHR '' '' line) 2 of
                    Inl e \<Rightarrow> Inl e
                  | Inr value \<Rightarrow> Inr (PyStr value))
            else macro_scan g macro s)"
  by (subst macro_scan.simps) (simp only: assms option.case)


lemma macro_scan_total:
  assumes "\<forall>(k, line) \<in> set g.
             1 < length (split CHR '' '' line) \<and> split CHR '' '' line ! 1 = macro
               \<longrightarrow> 2 < length (split CHR '' '' line)"
  shows "\<exists>value. macro_scan g macro subscript = Inr value"
  using assms
proof (induction g macro subscript rule: macro_scan.induct)
  case (1 g macro subscript)
  show ?case
  proof (cases "nextSubscript g subscript")
    case None
    then show ?thesis by (simp only: macro_scan_end) blast
  next
    case (Some s)
    from nextSubscript_getString [OF Some] obtain line where
      line: "getString g s = Some line" "(s, line) \<in> set g" by blast
    show ?thesis
    proof (cases "1 < length (split CHR '' '' line) \<and> split CHR '' '' line ! 1 = macro")
      case True
      then have "2 < length (split CHR '' '' line)" using "1.prems" line(2) by auto
      then have "index (split CHR '' '' line) 2 = Inr (split CHR '' '' line ! 2)"
        by (simp add: index_def)
      then show ?thesis
        by (simp only: macro_scan_step [OF Some line(1)] if_P [OF True] sum.case) blast
    next
      case False
      have "\<exists>value. macro_scan g macro s = Inr value"
        using "1.IH" [OF Some line(1) False] "1.prems" by blast
      then show ?thesis
        by (simp only: macro_scan_step [OF Some line(1)] if_not_P [OF False])
    qed
  qed
qed

lemma macro_scan_raises:
  assumes "macro_scan g macro subscript = Inl e"
  shows "e = IndexError \<and>
         (\<exists>(k, line) \<in> set g. subscript < k \<and> length (split CHR '' '' line) = 2
              \<and> split CHR '' '' line ! 1 = macro)"
  using assms
proof (induction g macro subscript rule: macro_scan.induct)
  case (1 g macro subscript)
  show ?case
  proof (cases "nextSubscript g subscript")
    case None
    then show ?thesis using "1.prems" by (simp only: macro_scan_end) simp
  next
    case (Some s)
    from nextSubscript_getString [OF Some] obtain line where
      line: "getString g s = Some line" "(s, line) \<in> set g" by blast
    have above: "subscript < s" using Some by (rule nextSubscript_above)
    show ?thesis
    proof (cases "1 < length (split CHR '' '' line) \<and> split CHR '' '' line ! 1 = macro")
      case True
      have "(case index (split CHR '' '' line) 2 of Inl e \<Rightarrow> Inl e | Inr value \<Rightarrow> Inr (PyStr value)) = Inl e"
        using "1.prems" by (simp only: macro_scan_step [OF Some line(1)] if_P [OF True])
      then have "e = IndexError" "length (split CHR '' '' line) = 2"
        using True by (auto simp: index_def split: if_splits)
      then show ?thesis using True line(2) above by auto
    next
      case False
      have "macro_scan g macro s = Inl e"
        using "1.prems" by (simp only: macro_scan_step [OF Some line(1)] if_not_P [OF False])
      from "1.IH" [OF Some line(1) False this] obtain k' line' where
        "e = IndexError" "(k', line') \<in> set g" "s < k'"
        "length (split CHR '' '' line') = 2" "split CHR '' '' line' ! 1 = macro"
        by auto
      moreover have "subscript < k'" using above \<open>s < k'\<close> by simp
      ultimately show ?thesis by blast
    qed
  qed
qed

subsection \<open>Rows and the read loop\<close>

text \<open>
  The keys of a row are the column names at their first occurrence; every row returned
  was filled from a node of the global above the starting subscript; and the loops
  use the \<open>iris\<close> package only through the list constructor and \<open>get\<close>.
\<close>

lemma keys_dict_set:
  "map fst (dict_set k v d) = (if k \<in> fst ` set d then map fst d else map fst d @ [k])"
  by (induction d) auto

lemma dom_dict_set: "fst ` set (dict_set k v d) = insert k (fst ` set d)"
  by (induction d) auto

lemma remdups_snoc: "remdups (ys @ [c]) = remdups (filter (\<lambda>x. x \<noteq> c) ys) @ [c]"
  by (induction ys) auto

lemma first_occurrences_Cons:
  "rev (remdups (rev xs @ [c])) = c # rev (remdups (rev (filter (\<lambda>x. x \<noteq> c) xs)))"
  by (simp add: remdups_snoc rev_filter)

lemma fill_row_keys:
  assumes "fill_row lib raw_row i cols row = Inr row'"
  shows "map fst row' = map fst row @ rev (remdups (rev (filter (\<lambda>c. c \<notin> fst ` set row) cols)))"
  using assms
proof (induction cols arbitrary: i row)
  case Nil
  then show ?case by simp
next
  case (Cons c cols)
  from Cons.prems obtain cell where
    rest: "fill_row lib raw_row (i + 1) cols (dict_set c cell row) = Inr row'"
    by (auto split: sum.splits)
  note IH = Cons.IH [OF rest]
  show ?case
  proof (cases "c \<in> fst ` set row")
    case True
    then have "fst ` set (dict_set c cell row) = fst ` set row"
      by (auto simp: dom_dict_set)
    then show ?thesis using IH True by (simp add: keys_dict_set)
  next
    case False
    have "filter (\<lambda>x. x \<notin> fst ` set (dict_set c cell row)) cols
            = filter (\<lambda>x. x \<noteq> c) (filter (\<lambda>x. x \<notin> fst ` set row) cols)"
      by (auto simp: dom_dict_set intro: filter_cong)
    then show ?thesis using IH False by (simp add: first_occurrences_Cons keys_dict_set)
  qed
qed

lemma fill_row_all_columns:
  assumes "fill_row lib raw_row 0 cols [] = Inr row"
  shows "map fst row = rev (remdups (rev cols))"
  using fill_row_keys [OF assms] by simp

lemma first_occurrences_distinct: "distinct xs \<Longrightarrow> rev (remdups (rev xs)) = xs"
  by (simp add: distinct_remdups_id)

lemma read_rows_end:
  "nextSubscript g subscript = None \<Longrightarrow> read_rows lib g cols subscript result = Inr result"
  by (subst read_rows.simps) (simp only: option.case)

lemma read_rows_step:
  assumes "nextSubscript g subscript = Some s" and "getBytes g s = Some bytes"
  shows "read_rows lib g cols subscript result =
           (case IRISList lib bytes of
              Inl e \<Rightarrow> Inl e
            | Inr raw_row \<Rightarrow>
                (case fill_row lib raw_row 0 cols [] of
                   Inl e \<Rightarrow> Inl e
                 | Inr row \<Rightarrow> read_rows lib g cols s (result @ [row])))"
  by (subst read_rows.simps) (simp only: assms option.case)

lemma nextSubscript_getBytes:
  assumes "nextSubscript g s = Some k"
  shows "\<exists>bytes. getBytes g k = Some bytes \<and> (k, bytes) \<in> set g"
  using nextSubscript_getString [OF assms] by (simp add: getBytes_def getString_def)

lemma read_rows_rows:
  assumes "read_rows lib g cols subscript acc = Inr result"
  shows "\<forall>row \<in> set result. row \<in> set acc \<or>
           (\<exists>k bytes raw_row. (k, bytes) \<in> set g \<and> subscript < k
              \<and> IRISList lib bytes = Inr raw_row \<and> fill_row lib raw_row 0 cols [] = Inr row)"
  using assms
proof (induction lib g cols subscript acc rule: read_rows.induct)
  case (1 lib g cols subscript acc)
  show ?case
  proof (cases "nextSubscript g subscript")
    case None
    then show ?thesis using "1.prems" by (simp add: read_rows_end)
  next
    case (Some s)
    from nextSubscript_getBytes [OF Some] obtain bytes where
      bytes: "getBytes g s = Some bytes" "(s, bytes) \<in> set g" by blast
    have above: "subscript < s" using Some by (rule nextSubscript_above)
    from "1.prems" obtain raw_row row' where
      raw_row: "IRISList lib bytes = Inr raw_row"
      and row': "fill_row lib raw_row 0 cols [] = Inr row'"
      and rest: "read_rows lib g cols s (acc @ [row']) = Inr result"
      by (auto simp: read_rows_step [OF Some bytes(1)] split: sum.splits)
    note IH = "1.IH" [OF Some bytes(1) raw_row row' rest]
    show ?thesis
    proof
      fix row assume "row \<in> set result"
      with IH consider "row \<in> set acc" | "row = row'"
        | "\<exists>k bytes raw_row. (k, bytes) \<in> set g \<and> s < k
              \<and> IRISList lib bytes = Inr raw_row \<and> fill_row lib raw_row 0 cols [] = Inr row"
        by auto
      then show "row \<in> set acc \<or>
           (\<exists>k bytes raw_row. (k, bytes) \<in> set g \<and> subscript < k
              \<and> IRISList lib bytes = Inr raw_row \<and> fill_row lib raw_row 0 cols [] = Inr row)"
      proof cases
        case 1
        then show ?thesis by simp
      next
        case 2
        then show ?thesis using bytes(2) above raw_row row' by blast
      next
        case 3
        then obtain k b r where "(k, b) \<in> set g" "s < k" "IRISList lib b = Inr r"
          "fill_row lib r 0 cols [] = Inr row" by blast
        moreover have "subscript < k" using above \<open>s < k\<close> by simp
        ultimately show ?thesis by blast
      qed
    qed
  qed
qed

lemma fill_row_cells:
  assumes "fill_row lib raw_row i cols row = Inr row'"
  shows "\<forall>j < length cols. \<exists>cell. IRISList_get lib raw_row (i + j + 1) = Inr cell"
  using assms
proof (induction cols arbitrary: i row)
  case Nil
  then show ?case by simp
next
  case (Cons c cols)
  from Cons.prems obtain cell where
    cell: "IRISList_get lib raw_row (i + 1) = Inr cell"
    and rest: "fill_row lib raw_row (i + 1) cols (dict_set c cell row) = Inr row'"
    by (auto split: sum.splits)
  show ?case
  proof (intro allI impI)
    fix j assume "j < length (c # cols)"
    then show "\<exists>cell. IRISList_get lib raw_row (i + j + 1) = Inr cell"
      using cell Cons.IH [OF rest] by (cases j) auto
  qed
qed

lemma fill_row_distinct:
  assumes "fill_row lib raw_row i cols row = Inr row'"
    and "distinct cols" and "fst ` set row \<inter> set cols = {}"
  shows "length row' = length row + length cols \<and> (\<forall>j < length row. row' ! j = row ! j)
         \<and> (\<forall>j < length cols. IRISList_get lib raw_row (i + j + 1) = Inr (snd (row' ! (length row + j)))
                \<and> fst (row' ! (length row + j)) = cols ! j)"
  using assms
proof (induction cols arbitrary: i row)
  case Nil
  then show ?case by simp
next
  case (Cons c cols)
  from Cons.prems(1) obtain cell where
    cell: "IRISList_get lib raw_row (i + 1) = Inr cell"
    and rest: "fill_row lib raw_row (i + 1) cols (dict_set c cell row) = Inr row'"
    by (auto split: sum.splits)
  have new: "dict_set c cell row = row @ [(c, cell)]"
    using Cons.prems(3) by (intro dict_set_new) auto
  have "fst ` set (row @ [(c, cell)]) \<inter> set cols = {}"
    using Cons.prems(2,3) by auto
  from Cons.IH [OF rest [unfolded new] _ this] Cons.prems(2)
  have IH: "length row' = length (row @ [(c, cell)]) + length cols"
    "\<forall>j < length (row @ [(c, cell)]). row' ! j = (row @ [(c, cell)]) ! j"
    "\<forall>j < length cols. IRISList_get lib raw_row (i + 1 + j + 1) = Inr (snd (row' ! (length (row @ [(c, cell)]) + j)))
         \<and> fst (row' ! (length (row @ [(c, cell)]) + j)) = cols ! j"
    by auto
  have a: "length row' = length row + length (c # cols)" using IH(1) by simp
  have b: "\<forall>j < length row. row' ! j = row ! j"
    using IH(2) by (auto simp: nth_append)
  have c0: "row' ! length row = (c, cell)"
    using IH(2) by (auto simp: nth_append)
  have c: "IRISList_get lib raw_row (i + j + 1) = Inr (snd (row' ! (length row + j)))
         \<and> fst (row' ! (length row + j)) = (c # cols) ! j" if "j < length (c # cols)" for j
  proof (cases j)
    case 0
    then show ?thesis using c0 cell by simp
  next
    case (Suc j')
    then have "j' < length cols" using that by simp
    with IH(3) show ?thesis using Suc by simp
  qed
  from a b c show ?case by blast
qed

lemma iknow_query_raises:
  assumes "iknow_query lib api method domain_id args kwargs w = (Inl e, w')"
  shows "w' = w \<or> (\<exists>full_args r.
           classMethodVoid lib api method (outGlo_of kwargs # domain_id # full_args) w = (r, w'))"
proof (cases "Default_of lib (api @ ''||'' @ method @ ''RT'')")
  case (Inl e)
  then show ?thesis using assms by (simp add: iknow_query_stages)
next
  case rt: (Inr rt)
  show ?thesis
  proof (cases "return_types_of rt")
    case (Inl e)
    then show ?thesis using assms rt by (simp add: iknow_query_stages)
  next
    case types: (Inr return_types)
    show ?thesis
    proof (cases "FormalSpec_of lib (api @ ''||'' @ method)")
      case (Inl e)
      then show ?thesis using assms rt types by (simp add: iknow_query_stages)
    next
      case spec: (Inr formal_spec)
      show ?thesis
      proof (cases "full_args_of (str_upper lib) w args kwargs formal_spec")
        case (Inl e)
        then show ?thesis using assms rt types spec by (simp add: iknow_query_stages)
      next
        case bound: (Inr full_args)
        obtain r w1 where call: "classMethodVoid lib api method (outGlo_of kwargs # domain_id # full_args) w = (r, w1)"
          by (cases "classMethodVoid lib api method (outGlo_of kwargs # domain_id # full_args) w")
        have "w' = w1"
          using assms rt types spec bound call
          by (simp add: iknow_query_stages split: option.splits sum.splits)
        then show ?thesis using call by blast
      qed
    qed
  qed
qed

lemma fill_row_lib_cong:
  assumes "IRISList_get lib' = IRISList_get lib"
  shows "fill_row lib' raw_row i cols row = fill_row lib raw_row i cols row"
  by (induction cols arbitrary: i row) (simp_all add: assms split: sum.splits)

lemma read_rows_lib_cong:
  "IRISList lib' = IRISList lib \<Longrightarrow> IRISList_get lib' = IRISList_get lib \<Longrightarrow>
     read_rows lib' g cols subscript acc = read_rows lib g cols subscript acc"
proof (induction lib g cols subscript acc rule: read_rows.induct)
  case (1 lib g cols subscript acc)
  show ?case
  proof (cases "nextSubscript g subscript")
    case None
    then show ?thesis by (simp add: read_rows_end)
  next
    case (Some s)
    from nextSubscript_getBytes [OF Some] obtain bytes where
      bytes: "getBytes g s = Some bytes" by blast
    note step = read_rows_step [OF Some bytes]
    note fill = fill_row_lib_cong [OF "1.prems"(2)]
    show ?thesis
    proof (cases "IRISList lib bytes")
      case (Inl e)
      then show ?thesis using "1.prems"(1) by (simp add: step)
    next
      case raw_row: (Inr raw_row)
      show ?thesis
      proof (cases "fill_row lib raw_row 0 cols []")
        case (Inl e)
        then show ?thesis
          using "1.prems" raw_row by (simp add: step fill)
      next
        case (Inr row)
        have "read_rows lib' g cols s (acc @ [row]) = read_rows lib g cols s (acc @ [row])"
          using "1.IH" [OF Some bytes raw_row Inr "1.prems"] .
        then show ?thesis
          using "1.prems" raw_row Inr by (simp add: step fill)
      qed
    qed
  qed
qed

lemma classMethodVoid_lib_cong:
  "method_body lib' = method_body lib \<Longrightarrow>
     classMethodVoid lib' api method argv w = classMethodVoid lib api method argv w"
  by (simp add: classMethodVoid_def)

lemma return_types_unused:
  assumes rt: "Default_of lib (api @ ''||'' @ method @ ''RT'') = Inr rt"
    and types: "return_types_of rt = Inr return_types" "return_types_of rt' = Inr return_types'"
    and cols: "return_cols_of rt' = return_cols_of rt"
  shows "iknow_query (lib\<lparr>Default_of := \<lambda>id. Inr rt'\<rparr>) api method domain_id args kwargs w
           = iknow_query lib api method domain_id args kwargs w"
proof -
  let ?lib' = "lib\<lparr>Default_of := \<lambda>id. Inr rt'\<rparr>"
  have rt': "Default_of ?lib' (api @ ''||'' @ method @ ''RT'') = Inr rt'" by simp
  have spec: "FormalSpec_of ?lib' = FormalSpec_of lib" by simp
  have call: "classMethodVoid ?lib' api method argv w = classMethodVoid lib api method argv w" for argv
    by (rule classMethodVoid_lib_cong) simp
  have read: "read_rows ?lib' g cs s acc = read_rows lib g cs s acc" for g cs s acc
    by (rule read_rows_lib_cong) simp_all
  show ?thesis
  proof (cases "FormalSpec_of lib (api @ ''||'' @ method)")
    case (Inl e)
    have "iknow_query lib api method domain_id args kwargs w = (Inl e, w)"
      using rt types(1) Inl by (simp add: iknow_query_stages)
    moreover have "iknow_query ?lib' api method domain_id args kwargs w = (Inl e, w)"
      using rt' types(2) Inl by (simp add: iknow_query_stages)
    ultimately show ?thesis by simp
  next
    case fs: (Inr formal_spec)
    show ?thesis
    proof (cases "full_args_of (str_upper lib) w args kwargs formal_spec")
      case (Inl e)
      have "iknow_query lib api method domain_id args kwargs w = (Inl e, w)"
        using rt types(1) fs Inl by (simp add: iknow_query_stages)
      moreover have "iknow_query ?lib' api method domain_id args kwargs w = (Inl e, w)"
        using rt' types(2) fs Inl by (simp add: iknow_query_stages)
      ultimately show ?thesis by simp
    next
      case bound: (Inr full_args)
      obtain r w1 where
        c: "classMethodVoid lib api method (outGlo_of kwargs # domain_id # full_args) w = (r, w1)"
        by (cases "classMethodVoid lib api method (outGlo_of kwargs # domain_id # full_args) w")
      have c': "classMethodVoid ?lib' api method (outGlo_of kwargs # domain_id # full_args) w = (r, w1)"
        using c by (simp only: call)
      let ?rest = "case r of
                     Some e \<Rightarrow> (Inl e, w1)
                   | None \<Rightarrow>
                       (case read_rows lib (globals w1 (outGlo_of kwargs)) (return_cols_of rt) 0 [] of
                          Inl e \<Rightarrow> (Inl e, w1)
                        | Inr result \<Rightarrow> (Inr result, kill (outGlo_of kwargs) w1))"
      have "iknow_query lib api method domain_id args kwargs w = ?rest"
        using rt types(1) fs bound c by (simp add: iknow_query_stages split: option.splits)
      moreover have "iknow_query ?lib' api method domain_id args kwargs w = ?rest"
        using rt' types(2) fs bound c' cols
        by (simp add: iknow_query_stages read split: option.splits)
      ultimately show ?thesis by simp
    qed
  qed
qed

subsection \<open>Every node is read\<close>

text \<open>
  \<open>nextSubscript\<close> finds the least subscript above the current one, so the read loop
  visits every node above its start once: a run that returns has a row for each, and
  a run that raises does so at the list constructor or at a \<open>get\<close> for a column.
\<close>

lemma nextSubscript_None_pair:
  "nextSubscript g s = None \<Longrightarrow> (k, b) \<in> set g \<Longrightarrow> \<not> s < k"
  by (induction g) (auto split: option.splits if_splits)

lemma nextSubscript_None:
  assumes "nextSubscript g s = None" and "k \<in> fst ` set g"
  shows "\<not> s < k"
proof -
  from assms(2) obtain b where "(k, b) \<in> set g" by auto
  from nextSubscript_None_pair [OF assms(1) this] show ?thesis .
qed

lemma nextSubscript_least_pair:
  "nextSubscript g s = Some m \<Longrightarrow> (k, b) \<in> set g \<Longrightarrow> s < k \<Longrightarrow> m \<le> k"
proof (induction g arbitrary: m)
  case Nil
  then show ?case by simp
next
  case (Cons p g)
  obtain k0 x where p: "p = (k0, x)" by (cases p)
  show ?case
  proof (cases "nextSubscript g s")
    case None
    have "\<not> s < k" if "(k, b) \<in> set g"
      using nextSubscript_None_pair [OF None that] .
    then show ?thesis using Cons.prems None p by (auto split: if_splits)
  next
    case (Some m')
    have "m' \<le> k" if "(k, b) \<in> set g" using Cons.IH [OF Some that Cons.prems(3)] .
    then show ?thesis using Cons.prems Some p by (auto split: if_splits)
  qed
qed

lemma nextSubscript_least:
  assumes "nextSubscript g s = Some m" and "k \<in> fst ` set g" and "s < k"
  shows "m \<le> k"
proof -
  from assms(2) obtain b where "(k, b) \<in> set g" by auto
  from nextSubscript_least_pair [OF assms(1) this assms(3)] show ?thesis .
qed

lemma read_rows_prefix:
  "read_rows lib g cols s acc = Inr result \<Longrightarrow> \<exists>rest. result = acc @ rest"
proof (induction lib g cols s acc rule: read_rows.induct)
  case (1 lib g cols subscript acc)
  show ?case
  proof (cases "nextSubscript g subscript")
    case None
    then show ?thesis using "1.prems" by (simp add: read_rows_end)
  next
    case (Some s)
    from nextSubscript_getBytes [OF Some] obtain bytes where
      bytes: "getBytes g s = Some bytes" by blast
    from "1.prems" obtain raw_row row' where
      raw_row: "IRISList lib bytes = Inr raw_row"
      and row': "fill_row lib raw_row 0 cols [] = Inr row'"
      and rest: "read_rows lib g cols s (acc @ [row']) = Inr result"
      by (auto simp: read_rows_step [OF Some bytes] split: sum.splits)
    from "1.IH" [OF Some bytes raw_row row' rest] show ?thesis by auto
  qed
qed

lemma read_rows_every_node:
  "read_rows lib g cols s acc = Inr result \<Longrightarrow> map_of g k = Some bytes \<Longrightarrow> s < k \<Longrightarrow>
     \<exists>raw_row row. IRISList lib bytes = Inr raw_row
        \<and> fill_row lib raw_row 0 cols [] = Inr row \<and> row \<in> set result"
proof (induction lib g cols s acc rule: read_rows.induct)
  case (1 lib g cols subscript acc)
  have mem: "k \<in> fst ` set g"
    using "1.prems"(2) by (metis map_of_eq_None_iff option.distinct(1))
  show ?case
  proof (cases "nextSubscript g subscript")
    case None
    then show ?thesis using nextSubscript_None [OF None mem] "1.prems"(3) by simp
  next
    case (Some s)
    from nextSubscript_getBytes [OF Some] obtain bytes' where
      bytes': "getBytes g s = Some bytes'" by blast
    from "1.prems"(1) obtain raw_row row' where
      raw_row: "IRISList lib bytes' = Inr raw_row"
      and row': "fill_row lib raw_row 0 cols [] = Inr row'"
      and rest: "read_rows lib g cols s (acc @ [row']) = Inr result"
      by (auto simp: read_rows_step [OF Some bytes'] split: sum.splits)
    have le: "s \<le> k" using nextSubscript_least [OF Some mem "1.prems"(3)] .
    show ?thesis
    proof (cases "s = k")
      case True
      then have "bytes' = bytes" using bytes' "1.prems"(2) by (simp add: getBytes_def)
      moreover have "row' \<in> set result" using read_rows_prefix [OF rest] by auto
      ultimately show ?thesis using raw_row row' by blast
    next
      case False
      then have "s < k" using le by simp
      from "1.IH" [OF Some bytes' raw_row row' rest "1.prems"(2) this] show ?thesis .
    qed
  qed
qed

lemma fill_row_raises:
  "fill_row lib raw_row i cols row = Inl e \<Longrightarrow>
     \<exists>j < length cols. IRISList_get lib raw_row (i + j + 1) = Inl e"
proof (induction cols arbitrary: i row)
  case Nil
  then show ?case by simp
next
  case (Cons c cols)
  show ?case
  proof (cases "IRISList_get lib raw_row (i + 1)")
    case (Inl e')
    then have "e' = e" using Cons.prems by simp
    then show ?thesis using Inl by (intro exI [of _ 0]) simp
  next
    case (Inr cell)
    then have "fill_row lib raw_row (i + 1) cols (dict_set c cell row) = Inl e"
      using Cons.prems by simp
    from Cons.IH [OF this] obtain j where "j < length cols"
      "IRISList_get lib raw_row (i + 1 + j + 1) = Inl e" by blast
    then show ?thesis by (intro exI [of _ "Suc j"]) simp
  qed
qed

lemma read_rows_raises:
  "read_rows lib g cols s acc = Inl e \<Longrightarrow>
     \<exists>k bytes. map_of g k = Some bytes \<and> s < k
       \<and> (IRISList lib bytes = Inl e
          \<or> (\<exists>raw_row j. IRISList lib bytes = Inr raw_row \<and> j < length cols
                \<and> IRISList_get lib raw_row (j + 1) = Inl e))"
proof (induction lib g cols s acc rule: read_rows.induct)
  case (1 lib g cols subscript acc)
  show ?case
  proof (cases "nextSubscript g subscript")
    case None
    then show ?thesis using "1.prems" by (simp add: read_rows_end)
  next
    case (Some s)
    from nextSubscript_getBytes [OF Some] obtain bytes where
      bytes: "getBytes g s = Some bytes" by blast
    then have node: "map_of g s = Some bytes" by (simp add: getBytes_def)
    have above: "subscript < s" using Some by (rule nextSubscript_above)
    note step = read_rows_step [OF Some bytes]
    show ?thesis
    proof (cases "IRISList lib bytes")
      case (Inl e')
      then have "e' = e" using "1.prems" by (simp add: step)
      then show ?thesis using Inl node above by blast
    next
      case raw_row: (Inr raw_row)
      show ?thesis
      proof (cases "fill_row lib raw_row 0 cols []")
        case (Inl e')
        then have "e' = e" using "1.prems" raw_row by (simp add: step)
        with Inl fill_row_raises [of lib raw_row 0 cols "[]" e]
        obtain j where "j < length cols" "IRISList_get lib raw_row (j + 1) = Inl e" by auto
        then show ?thesis using raw_row node above by blast
      next
        case (Inr row)
        then have "read_rows lib g cols s (acc @ [row]) = Inl e"
          using "1.prems" raw_row by (simp add: step)
        from "1.IH" [OF Some bytes raw_row Inr this] obtain k b where
          "map_of g k = Some b" "s < k"
          "IRISList lib b = Inl e
             \<or> (\<exists>raw_row j. IRISList lib b = Inr raw_row \<and> j < length cols
                   \<and> IRISList_get lib raw_row (j + 1) = Inl e)"
          by blast
        moreover have "subscript < k" using above \<open>s < k\<close> by simp
        ultimately show ?thesis by blast
      qed
    qed
  qed
qed

lemma read_rows_length:
  "read_rows lib g cols s acc = Inr result \<Longrightarrow>
     length result = length acc + card {k \<in> fst ` set g. s < k}"
proof (induction lib g cols s acc rule: read_rows.induct)
  case (1 lib g cols subscript acc)
  show ?case
  proof (cases "nextSubscript g subscript")
    case None
    then have "{k \<in> fst ` set g. subscript < k} = {}"
      using nextSubscript_None by blast
    then show ?thesis using "1.prems" None by (simp add: read_rows_end)
  next
    case (Some s)
    from nextSubscript_getBytes [OF Some] obtain bytes where
      bytes: "getBytes g s = Some bytes" by blast
    from "1.prems" obtain raw_row row' where
      raw_row: "IRISList lib bytes = Inr raw_row"
      and row': "fill_row lib raw_row 0 cols [] = Inr row'"
      and rest: "read_rows lib g cols s (acc @ [row']) = Inr result"
      by (auto simp: read_rows_step [OF Some bytes] split: sum.splits)
    have above: "subscript < s" using Some by (rule nextSubscript_above)
    have mem: "s \<in> fst ` set g" using Some by (rule nextSubscript_mem)
    have "{k \<in> fst ` set g. subscript < k} = insert s {k \<in> fst ` set g. s < k}"
      using above mem nextSubscript_least [OF Some] by force
    moreover have "s \<notin> {k \<in> fst ` set g. s < k}" by simp
    moreover have "finite {k \<in> fst ` set g. s < k}" by simp
    ultimately have "card {k \<in> fst ` set g. subscript < k} = Suc (card {k \<in> fst ` set g. s < k})"
      by simp
    then show ?thesis using "1.IH" [OF Some bytes raw_row row' rest] by simp
  qed
qed

subsection \<open>When the class method is called\<close>


lemma iknow_query_after_call:
  assumes "Default_of lib (api @ ''||'' @ method @ ''RT'') = Inr rt"
    and "return_types_of rt = Inr return_types"
    and "FormalSpec_of lib (api @ ''||'' @ method) = Inr formal_spec"
    and "full_args_of (str_upper lib) w args kwargs formal_spec = Inr full_args"
    and "classMethodVoid lib api method (outGlo_of kwargs # domain_id # full_args) w = (r, w1)"
  shows "iknow_query lib api method domain_id args kwargs w =
           (case r of
              Some e \<Rightarrow> (Inl e, w1)
            | None \<Rightarrow>
                (case read_rows lib (globals w1 (outGlo_of kwargs)) (return_cols_of rt) 0 [] of
                   Inl e \<Rightarrow> (Inl e, w1)
                 | Inr result \<Rightarrow> (Inr result, kill (outGlo_of kwargs) w1)))"
  using assms by (simp add: iknow_query_stages split: option.splits)



subsection \<open>Resolution of the result schema\<close>

text \<open>
  C10. The cell takes from every comma-separated entry of the \<open>Default\<close> string both the
  part before the first \<open>:\<close> (index 0) and the part after it (index 1). When some entry
  has no \<open>:\<close>, reading index 1 raises \<open>IndexError\<close>; \<open>iknow_query\<close> ends there, with the
  world as it found it, so the class method has not been called. Yet the list of
  types is not read again: a \<open>Default\<close> string with the same names and any other types
  that can be read gives the same outcome.
\<close>

theorem schema_entry_without_colon_raises:
  "(Default_of lib (api @ ''||'' @ method @ ''RT'') = Inr rt
      \<and> entry \<in> set (split CHR '','' rt) \<and> CHR '':'' \<notin> set entry
     \<longrightarrow> iknow_query lib api method domain_id args kwargs w = (Inl IndexError, w))
   \<and> (Default_of lib (api @ ''||'' @ method @ ''RT'') = Inr rt
      \<and> return_types_of rt = Inr return_types \<and> return_types_of rt' = Inr return_types'
      \<and> return_cols_of rt' = return_cols_of rt
     \<longrightarrow> iknow_query (lib\<lparr>Default_of := \<lambda>id. Inr rt'\<rparr>) api method domain_id args kwargs w
           = iknow_query lib api method domain_id args kwargs w)"
proof (intro conjI impI)
  assume a: "Default_of lib (api @ ''||'' @ method @ ''RT'') = Inr rt
      \<and> entry \<in> set (split CHR '','' rt) \<and> CHR '':'' \<notin> set entry"
  then have "index (split CHR '':'' entry) 1 = Inl IndexError"
    by (simp add: split_without_separator index_def)
  then have "map_raising (\<lambda>x. index (split CHR '':'' x) 1) (split CHR '','' rt) = Inl IndexError"
    using a index_error by (intro map_raising_IndexError [where x = entry]) auto
  then show "iknow_query lib api method domain_id args kwargs w = (Inl IndexError, w)"
    using a by (simp add: iknow_query_def Let_def)
next
  assume "Default_of lib (api @ ''||'' @ method @ ''RT'') = Inr rt
      \<and> return_types_of rt = Inr return_types \<and> return_types_of rt' = Inr return_types'
      \<and> return_cols_of rt' = return_cols_of rt"
  then show "iknow_query (lib\<lparr>Default_of := \<lambda>id. Inr rt'\<rparr>) api method domain_id args kwargs w
           = iknow_query lib api method domain_id args kwargs w"
    using return_types_unused by blast
qed

theorem schema_entry_without_colon_raises_witness:
  "iknow_query
     (example_iris ''entity:%String,frequency'' ''&result,domainid:%Integer'' (writes []) (Inr PyNone))
     ''%iKnow.Queries.EntityAPI'' ''GetTop'' (PyInt 1) [] [] (world_with_macros [])
   = (Inl IndexError, world_with_macros [])
   \<and> iknow_query
     ((example_iris ''entity:%String,frequency:%Integer'' ''&result,domainid:%Integer''
         (writes [(1, ''cat;3'')]) (Inr PyNone))\<lparr>Default_of := \<lambda>id. Inr ''entity:,frequency:%String''\<rparr>)
     ''%iKnow.Queries.EntityAPI'' ''GetTop'' (PyInt 1) [] [] (world_with_macros [])
   = iknow_query
     (example_iris ''entity:%String,frequency:%Integer'' ''&result,domainid:%Integer''
         (writes [(1, ''cat;3'')]) (Inr PyNone))
     ''%iKnow.Queries.EntityAPI'' ''GetTop'' (PyInt 1) [] [] (world_with_macros [])"
proof -
  let ?bad = "example_iris ''entity:%String,frequency'' ''&result,domainid:%Integer'' (writes []) (Inr PyNone)"
  let ?lib = "example_iris ''entity:%String,frequency:%Integer'' ''&result,domainid:%Integer''
         (writes [(1, ''cat;3'')]) (Inr PyNone)"
  let ?api = "''%iKnow.Queries.EntityAPI''"
  have no_colon: "Default_of ?bad (?api @ ''||'' @ ''GetTop'' @ ''RT'') = Inr ''entity:%String,frequency''
      \<and> ''frequency'' \<in> set (split CHR '','' ''entity:%String,frequency'') \<and> CHR '':'' \<notin> set ''frequency''"
    by (simp add: example_iris_def)
  have same_names: "Default_of ?lib (?api @ ''||'' @ ''GetTop'' @ ''RT'') = Inr ''entity:%String,frequency:%Integer''
      \<and> return_types_of ''entity:%String,frequency:%Integer'' = Inr [''%String'', ''%Integer'']
      \<and> return_types_of ''entity:,frequency:%String'' = Inr ['''', ''%String'']
      \<and> return_cols_of ''entity:,frequency:%String'' = return_cols_of ''entity:%String,frequency:%Integer''"
    by (intro conjI) (simp add: example_iris_def, code_simp+)
  from schema_entry_without_colon_raises [of ?bad ?api "''GetTop''" _ "''frequency''"] no_colon
  have "iknow_query ?bad ?api ''GetTop'' (PyInt 1) [] [] (world_with_macros [])
          = (Inl IndexError, world_with_macros [])" by blast
  moreover
  from schema_entry_without_colon_raises [of ?lib ?api "''GetTop''"] same_names
  have "iknow_query (?lib\<lparr>Default_of := \<lambda>id. Inr ''entity:,frequency:%String''\<rparr>)
            ?api ''GetTop'' (PyInt 1) [] [] (world_with_macros [])
          = iknow_query ?lib ?api ''GetTop'' (PyInt 1) [] [] (world_with_macros [])" by blast
  ultimately show ?thesis by blast
qed

subsection \<open>Defaults\<close>






subsection \<open>Positional arguments beyond the formal spec\<close>




subsection \<open>\<open>iknow_macro\<close>\<close>

text \<open>
  C9. \<open>iknow_macro\<close> returns a value or \<open>None\<close> whenever every line of the include file
  whose second space-separated field is the macro's name has a third field. It raises
  only \<open>IndexError\<close>, and only when a scanned line with that second field has exactly
  two fields: the guard \<open>len(raw_line) > 1\<close> lets such a line through to
  \<open>raw_line[2]\<close>. The last part is such a file.
\<close>

theorem iknow_macro_needs_third_field:
  "((\<forall>(k, line) \<in> set (globals w rINC).
        1 < length (split CHR '' '' line)
        \<and> split CHR '' '' line ! 1 = (if take 3 macro = ''$$$'' then drop 3 macro else macro)
          \<longrightarrow> 2 < length (split CHR '' '' line))
      \<longrightarrow> (\<exists>value. iknow_macro w macro = Inr value))
   \<and> (iknow_macro w macro = Inl e
      \<longrightarrow> e = IndexError
          \<and> (\<exists>(k, line) \<in> set (globals w rINC).
                 0 < k \<and> length (split CHR '' '' line) = 2
                 \<and> split CHR '' '' line ! 1 = (if take 3 macro = ''$$$'' then drop 3 macro else macro)))
   \<and> iknow_macro (world_with_macros [(1, ''#define FILTERONLY'')]) ''$$$FILTERONLY'' = Inl IndexError"
proof (intro conjI impI)
  assume "\<forall>(k, line) \<in> set (globals w rINC).
        1 < length (split CHR '' '' line)
        \<and> split CHR '' '' line ! 1 = (if take 3 macro = ''$$$'' then drop 3 macro else macro)
          \<longrightarrow> 2 < length (split CHR '' '' line)"
  then show "\<exists>value. iknow_macro w macro = Inr value"
    unfolding iknow_macro_def by (rule macro_scan_total)
next
  assume "iknow_macro w macro = Inl e"
  then have raised: "macro_scan (globals w rINC) (if take 3 macro = ''$$$'' then drop 3 macro else macro) 0 = Inl e"
    by (simp only: iknow_macro_def)
  from macro_scan_raises [OF raised] show "e = IndexError" by blast
  from macro_scan_raises [OF raised]
  show "\<exists>(k, line) \<in> set (globals w rINC).
          0 < k \<and> length (split CHR '' '' line) = 2
          \<and> split CHR '' '' line ! 1 = (if take 3 macro = ''$$$'' then drop 3 macro else macro)"
    by blast
next
  show "iknow_macro (world_with_macros [(1, ''#define FILTERONLY'')]) ''$$$FILTERONLY'' = Inl IndexError"
    by code_simp
qed

theorem iknow_macro_needs_third_field_witness:
  "(\<exists>value. iknow_macro (world_with_macros [(1, ''#define FILTERONLY 1''), (2, ''#define ENTTYPEANY 0'')])
              ''$$$ENTTYPEANY'' = Inr value)
   \<and> iknow_macro (world_with_macros [(1, ''#define FILTERONLY 1''), (2, ''#define ENTTYPEANY 0'')])
        ''$$$ENTTYPEANY'' = Inr (PyStr ''0'')"
proof -
  let ?w = "world_with_macros [(1, ''#define FILTERONLY 1''), (2, ''#define ENTTYPEANY 0'')]"
  have pre: "\<forall>(k, line) \<in> set (globals ?w rINC).
        1 < length (split CHR '' '' line)
        \<and> split CHR '' '' line ! 1 = (if take 3 ''$$$ENTTYPEANY'' = ''$$$'' then drop 3 ''$$$ENTTYPEANY'' else ''$$$ENTTYPEANY'')
          \<longrightarrow> 2 < length (split CHR '' '' line)"
    by code_simp
  have "\<exists>value. iknow_macro ?w ''$$$ENTTYPEANY'' = Inr value"
    using iknow_macro_needs_third_field [of ?w "''$$$ENTTYPEANY''"] pre by blast
  moreover have "iknow_macro ?w ''$$$ENTTYPEANY'' = Inr (PyStr ''0'')"
    by code_simp
  ultimately show ?thesis by blast
qed

subsection \<open>Keyword arguments\<close>

text \<open>
  C2 (as the cell behaves). Take a call that reaches the class method and a parameter at
  position \<open>i \<ge> 2\<close> of the formal spec. If the caller gives a keyword argument other
  than \<open>outGlo\<close> whose name and the parameter's name are equal after \<open>str.upper()\<close>,
  and no keyword argument given after it has such a name, binding the parameter
  yields its value and that value is the one passed, whatever positional arguments
  and whatever default there are. Keyword names of one call are distinct, as Python
  requires.
\<close>

theorem named_argument_wins:
  assumes call: "invoked (snd (iknow_query lib api method domain_id args kwargs w))
                   = invoked w @ [(api', method', argv)]"
    and spec: "FormalSpec_of lib (api @ ''||'' @ method) = Inr formal_spec"
    and i: "2 \<le> i" "i < length (split CHR '','' formal_spec)"
    and stripped: "strip_marker (split CHR '','' formal_spec ! i) = Inr stripped"
    and kwargs: "kwargs = pre @ (k, v) # post" "distinct (map fst kwargs)"
    and named: "k \<noteq> outGlo_key" "str_upper lib k = argument_name (str_upper lib) (split CHR ''='' stripped)"
    and last: "\<forall>(k', v') \<in> set post. k' \<noteq> outGlo_key \<longrightarrow> str_upper lib k' \<noteq> str_upper lib k"
  shows "bind_argument (str_upper lib) w
           (kwupper_of (str_upper lib) (dict_merge [(outGlo_key, default_outGlo)] kwargs)) args i
           (split CHR '','' formal_spec ! i) = Inr v
       \<and> argv ! i = v"
proof -
  have "kwupper_of (str_upper lib) (dict_merge [(outGlo_key, default_outGlo)] kwargs) (str_upper lib k) = Some v"
    using kwargs named(1) last by (simp add: kwupper_of_merge) (rule kwupper_of_last, auto)
  then have "bind_argument (str_upper lib) w (kwupper_of (str_upper lib) (dict_merge [(outGlo_key, default_outGlo)] kwargs)) args i
               (split CHR '','' formal_spec ! i) = Inr v"
    using stripped named(2) by (simp add: bind_argument_def Let_def)
  then show ?thesis using argv_nth [OF call spec i] by simp
qed

theorem named_argument_wins_witness:
  "invoked (snd (iknow_query
      (example_iris ''entity:%String'' ''&result,domainid:%Integer,page:%Integer=1''
         (writes [(1, ''cat'')]) (Inr PyNone))
      ''%iKnow.Queries.EntityAPI'' ''GetTop'' (PyInt 1) [PyInt 5]
      [(''pagesize'', PyInt 3), (''Page'', PyInt 7), (''outGlo'', PyStr ''^result'')]
      (world_with_macros [])))
   = [(''%iKnow.Queries.EntityAPI'', ''GetTop'', [PyStr ''^result'', PyInt 1, PyInt 7])]
   \<and> [PyStr ''^result'', PyInt 1, PyInt 7] ! 2 = PyInt 7"
proof -
  let ?spec = "''&result,domainid:%Integer,page:%Integer=1''"
  let ?lib = "example_iris ''entity:%String'' ?spec (writes [(1, ''cat'')]) (Inr PyNone)"
  let ?w = "world_with_macros []"
  let ?argv = "[PyStr ''^result'', PyInt 1, PyInt 7]"
  let ?kwargs = "[(''pagesize'', PyInt 3), (''Page'', PyInt 7), (''outGlo'', PyStr ''^result'')]"
  have call: "invoked (snd (iknow_query ?lib ''%iKnow.Queries.EntityAPI'' ''GetTop'' (PyInt 1) [PyInt 5] ?kwargs ?w))
              = invoked ?w @ [(''%iKnow.Queries.EntityAPI'', ''GetTop'', ?argv)]"
    by code_simp
  have spec: "FormalSpec_of ?lib (''%iKnow.Queries.EntityAPI'' @ ''||'' @ ''GetTop'') = Inr ?spec"
    by (simp add: example_iris_def)
  have i: "(2::nat) \<le> 2" "2 < length (split CHR '','' ?spec)"
    by code_simp+
  have stripped: "strip_marker (split CHR '','' ?spec ! 2) = Inr ''page:%Integer=1''"
    by code_simp
  have kwargs: "?kwargs = [(''pagesize'', PyInt 3)] @ (''Page'', PyInt 7) # [(''outGlo'', PyStr ''^result'')]"
    "distinct (map fst ?kwargs)"
    by simp_all
  have named: "''Page'' \<noteq> outGlo_key" "str_upper ?lib ''Page'' = argument_name (str_upper ?lib) (split CHR ''='' ''page:%Integer=1'')"
    by code_simp+
  have last: "\<forall>(k', v') \<in> set [(''outGlo'', PyStr ''^result'')]. k' \<noteq> outGlo_key \<longrightarrow> str_upper ?lib k' \<noteq> str_upper ?lib ''Page''"
    by code_simp
  have "?argv ! 2 = PyInt 7"
    using named_argument_wins [OF call spec i stripped kwargs named last] by blast
  moreover have "invoked ?w = []" by (simp add: world_with_macros_def)
  ultimately show ?thesis using call by simp
qed

text \<open>
  The specification speaks of every keyword argument with a matching name. Of two
  keyword arguments that differ only in letter case the later one is passed, not the
  earlier; and \<open>outGlo\<close> is never passed for a parameter, even one of that name.
\<close>

theorem named_argument_counterexample:
  "(''page'', PyInt 7) \<in> set [(''page'', PyInt 7), (''PAGE'', PyInt 8)]
   \<and> ascii_upper ''page'' = argument_name ascii_upper (split CHR ''='' ''page:%Integer=1'')
   \<and> invoked (snd (iknow_query
        (example_iris ''entity:%String'' ''&result,domainid:%Integer,page:%Integer=1''
           (writes [(1, ''cat'')]) (Inr PyNone))
        ''%iKnow.Queries.EntityAPI'' ''GetTop'' (PyInt 1) []
        [(''page'', PyInt 7), (''PAGE'', PyInt 8)] (world_with_macros [])))
      = [(''%iKnow.Queries.EntityAPI'', ''GetTop'', [PyStr ''^result'', PyInt 1, PyInt 8])]
   \<and> [PyStr ''^result'', PyInt 1, PyInt 8] ! 2 \<noteq> PyInt 7
   \<and> (''outGlo'', PyStr ''^mine'') \<in> set [(''outGlo'', PyStr ''^mine'')]
   \<and> ascii_upper ''outGlo'' = argument_name ascii_upper (split CHR ''='' ''outglo:%String=x'')
   \<and> invoked (snd (iknow_query
        (example_iris ''entity:%String'' ''&result,domainid:%Integer,outglo:%String=x''
           (writes [(1, ''cat'')]) (Inr PyNone))
        ''%iKnow.Queries.EntityAPI'' ''GetTop'' (PyInt 1) []
        [(''outGlo'', PyStr ''^mine'')] (world_with_macros [])))
      = [(''%iKnow.Queries.EntityAPI'', ''GetTop'', [PyStr ''^mine'', PyInt 1, PyStr ''x''])]
   \<and> [PyStr ''^mine'', PyInt 1, PyStr ''x''] ! 2 \<noteq> PyStr ''^mine''"
  by code_simp

subsection \<open>Explicit value against default\<close>




subsection \<open>The rows returned\<close>

text \<open>
  C1. When \<open>iknow_query\<close> returns, every row is a dict whose keys are the resolved
  column names, the text before the first \<open>:\<close> of each comma-separated entry of the
  \<open>Default\<close> string, in that order. A dict holds a key once, at the place where it was
  first stored: \<open>rev (remdups (rev cols))\<close> is \<open>cols\<close> with every name kept at its
  first occurrence, and it is \<open>cols\<close> itself when the names are distinct.
\<close>

theorem rows_keyed_by_return_cols:
  assumes "iknow_query lib api method domain_id args kwargs w = (Inr result, w')"
    and "Default_of lib (api @ ''||'' @ method @ ''RT'') = Inr rt"
    and "row \<in> set result"
  shows "map fst row = rev (remdups (rev (return_cols_of rt)))
       \<and> set (map fst row) = set (return_cols_of rt)
       \<and> (distinct (return_cols_of rt) \<longrightarrow> map fst row = return_cols_of rt)"
proof -
  from iknow_query_returns [OF assms(1)] assms(2) obtain w1 :: world where
    "read_rows lib (globals w1 (outGlo_of kwargs)) (return_cols_of rt) 0 [] = Inr result"
    by auto
  from read_rows_rows [OF this] assms(3) obtain raw_row where
    "fill_row lib raw_row 0 (return_cols_of rt) [] = Inr row"
    by auto
  then have keys: "map fst row = rev (remdups (rev (return_cols_of rt)))"
    by (rule fill_row_all_columns)
  then have "set (map fst row) = set (return_cols_of rt)" by simp
  moreover have "map fst row = return_cols_of rt" if "distinct (return_cols_of rt)"
    using keys that by (simp add: first_occurrences_distinct)
  ultimately show ?thesis using keys by blast
qed

theorem rows_keyed_by_return_cols_witness:
  "fst (iknow_query
     (example_iris ''entity:%String,frequency:%Integer'' ''&result,domainid:%Integer,page:%Integer=1''
        (writes [(2, ''fish;5''), (1, ''cat;3'')]) (Inr PyNone))
     ''%iKnow.Queries.EntityAPI'' ''GetTop'' (PyInt 1) [] [] (world_with_macros []))
   = Inr [[(''entity'', PyStr ''cat''), (''frequency'', PyStr ''3'')],
          [(''entity'', PyStr ''fish''), (''frequency'', PyStr ''5'')]]
   \<and> map fst [(''entity'', PyStr ''fish''), (''frequency'', PyStr ''5'')] = [''entity'', ''frequency'']"
proof -
  let ?rt = "''entity:%String,frequency:%Integer''"
  let ?lib = "example_iris ?rt ''&result,domainid:%Integer,page:%Integer=1''
        (writes [(2, ''fish;5''), (1, ''cat;3'')]) (Inr PyNone)"
  let ?run = "iknow_query ?lib ''%iKnow.Queries.EntityAPI'' ''GetTop'' (PyInt 1) [] [] (world_with_macros [])"
  let ?row = "[(''entity'', PyStr ''fish''), (''frequency'', PyStr ''5'')]"
  let ?result = "[[(''entity'', PyStr ''cat''), (''frequency'', PyStr ''3'')], ?row]"
  have rows: "fst ?run = Inr ?result" by code_simp
  then have run: "?run = (Inr ?result, snd ?run)" by (metis prod.collapse)
  have rt: "Default_of ?lib (''%iKnow.Queries.EntityAPI'' @ ''||'' @ ''GetTop'' @ ''RT'') = Inr ?rt"
    by (simp add: example_iris_def)
  have row: "?row \<in> set ?result" by simp
  have cols: "return_cols_of ?rt = [''entity'', ''frequency'']" by code_simp
  have "distinct (return_cols_of ?rt)" unfolding cols by simp
  with rows_keyed_by_return_cols [OF run rt row] have "map fst ?row = return_cols_of ?rt" by blast
  then show ?thesis using rows cols by simp
qed

text \<open>
  C6 (as the cell behaves). The row loop runs over the columns, not over the fields of
  the payload. Take a call whose class method has returned, leaving the world \<open>w1\<close>.
  When \<open>iknow_query\<close> returns, every node of the output global above subscript 0 has
  a row among the rows: one pair for every distinct column name, however many fields
  the node's list has, \<open>get(j+1)\<close> having been asked and answered for every column
  position \<open>j\<close>, the positions past the end of the list included; with distinct names
  the pair at position \<open>j\<close> is the column name with that answer. There are as many
  rows as nodes. When \<open>iknow_query\<close> raises, the exception is one that the list
  constructor or a \<open>get\<close> for a column raised on such a node; and whenever either
  raises on such a node, \<open>iknow_query\<close> raises.
\<close>

theorem short_payload_keeps_every_column:
  assumes rt: "Default_of lib (api @ ''||'' @ method @ ''RT'') = Inr rt"
    and types: "return_types_of rt = Inr return_types"
    and spec: "FormalSpec_of lib (api @ ''||'' @ method) = Inr formal_spec"
    and bound: "full_args_of (str_upper lib) w args kwargs formal_spec = Inr full_args"
    and called: "classMethodVoid lib api method (outGlo_of kwargs # domain_id # full_args) w = (None, w1)"
  shows "(\<forall>result k bytes.
            fst (iknow_query lib api method domain_id args kwargs w) = Inr result
            \<and> map_of (globals w1 (outGlo_of kwargs)) k = Some bytes \<and> 0 < k
          \<longrightarrow> (\<exists>raw_row row.
                 IRISList lib bytes = Inr raw_row \<and> row \<in> set result
               \<and> length row = length (remdups (return_cols_of rt))
               \<and> (\<forall>j < length (return_cols_of rt).
                     \<exists>cell. IRISList_get lib raw_row (j + 1) = Inr cell
                       \<and> (distinct (return_cols_of rt) \<longrightarrow> row ! j = (return_cols_of rt ! j, cell)))))
       \<and> (\<forall>result. fst (iknow_query lib api method domain_id args kwargs w) = Inr result
          \<longrightarrow> length result = card {k \<in> fst ` set (globals w1 (outGlo_of kwargs)). 0 < k})
       \<and> (\<forall>e. fst (iknow_query lib api method domain_id args kwargs w) = Inl e
          \<longrightarrow> (\<exists>k bytes. map_of (globals w1 (outGlo_of kwargs)) k = Some bytes \<and> 0 < k
                 \<and> (IRISList lib bytes = Inl e
                    \<or> (\<exists>raw_row j. IRISList lib bytes = Inr raw_row \<and> j < length (return_cols_of rt)
                          \<and> IRISList_get lib raw_row (j + 1) = Inl e))))
       \<and> (\<forall>k bytes e.
            map_of (globals w1 (outGlo_of kwargs)) k = Some bytes \<and> 0 < k
            \<and> (IRISList lib bytes = Inl e
               \<or> (\<exists>raw_row j. IRISList lib bytes = Inr raw_row \<and> j < length (return_cols_of rt)
                     \<and> IRISList_get lib raw_row (j + 1) = Inl e))
          \<longrightarrow> (\<exists>e'. fst (iknow_query lib api method domain_id args kwargs w) = Inl e'))"
proof -
  let ?cols = "return_cols_of rt"
  let ?g = "globals w1 (outGlo_of kwargs)"
  let ?run = "iknow_query lib api method domain_id args kwargs w"
  have run: "fst ?run = read_rows lib ?g ?cols 0 []"
    by (simp add: iknow_query_after_call [OF rt types spec bound called] split: sum.splits)
  have node_row: "\<exists>raw_row row.
                 IRISList lib bytes = Inr raw_row \<and> row \<in> set result
               \<and> length row = length (remdups ?cols)
               \<and> (\<forall>j < length ?cols.
                     \<exists>cell. IRISList_get lib raw_row (j + 1) = Inr cell
                       \<and> (distinct ?cols \<longrightarrow> row ! j = (?cols ! j, cell)))"
    if ret: "fst ?run = Inr result" and node: "map_of ?g k = Some bytes" "0 < k"
    for result k bytes
  proof -
    have read: "read_rows lib ?g ?cols 0 [] = Inr result" using ret run by simp
    from read_rows_every_node [OF read node] obtain raw_row row where
      raw_row: "IRISList lib bytes = Inr raw_row"
      and fill: "fill_row lib raw_row 0 ?cols [] = Inr row"
      and row: "row \<in> set result"
      by blast
    have "length (map fst row) = length (remdups (rev ?cols))"
      using fill_row_all_columns [OF fill] by simp
    then have len: "length row = length (remdups ?cols)"
      by (simp add: length_remdups_card_conv)
    have cells: "\<exists>cell. IRISList_get lib raw_row (j + 1) = Inr cell
                   \<and> (distinct ?cols \<longrightarrow> row ! j = (?cols ! j, cell))"
      if j: "j < length ?cols" for j
    proof (cases "distinct ?cols")
      case True
      from fill_row_distinct [OF fill True] j
      have "IRISList_get lib raw_row (j + 1) = Inr (snd (row ! j))" "fst (row ! j) = ?cols ! j"
        by auto
      then show ?thesis by (metis prod.collapse)
    next
      case False
      then show ?thesis using fill_row_cells [OF fill] j by auto
    qed
    from raw_row row len cells show ?thesis by blast
  qed
  have count: "length result = card {k \<in> fst ` set ?g. 0 < k}"
    if "fst ?run = Inr result" for result
    using read_rows_length [of lib ?g ?cols 0 "[]" result] that run by simp
  have raised: "\<exists>k bytes. map_of ?g k = Some bytes \<and> 0 < k
                 \<and> (IRISList lib bytes = Inl e
                    \<or> (\<exists>raw_row j. IRISList lib bytes = Inr raw_row \<and> j < length ?cols
                          \<and> IRISList_get lib raw_row (j + 1) = Inl e))"
    if "fst ?run = Inl e" for e
    using read_rows_raises [of lib ?g ?cols 0 "[]" e] that run by simp
  have raises: "\<exists>e'. fst ?run = Inl e'"
    if node: "map_of ?g k = Some bytes" "0 < k"
      and bad: "IRISList lib bytes = Inl e
               \<or> (\<exists>raw_row j. IRISList lib bytes = Inr raw_row \<and> j < length ?cols
                     \<and> IRISList_get lib raw_row (j + 1) = Inl e)"
    for k bytes e
  proof (cases "fst ?run")
    case (Inl e')
    then show ?thesis by blast
  next
    case (Inr result)
    from node_row [OF Inr node] obtain raw_row where
      "IRISList lib bytes = Inr raw_row"
      "\<forall>j < length ?cols. \<exists>cell. IRISList_get lib raw_row (j + 1) = Inr cell"
      by blast
    with bad show ?thesis by force
  qed
  from node_row count raised raises show ?thesis by blast
qed

theorem short_payload_keeps_every_column_witness:
  "fst (iknow_query
     (example_iris ''entity:%String,frequency:%Integer'' ''&result,domainid:%Integer,page:%Integer=1''
        (writes [(1, ''cat'')]) (Inr PyNone))
     ''%iKnow.Queries.EntityAPI'' ''GetTop'' (PyInt 1) [] [] (world_with_macros []))
   = Inr [[(''entity'', PyStr ''cat''), (''frequency'', PyNone)]]
   \<and> (\<exists>raw_row row.
         IRISList (example_iris ''entity:%String,frequency:%Integer''
            ''&result,domainid:%Integer,page:%Integer=1'' (writes [(1, ''cat'')]) (Inr PyNone)) ''cat''
           = Inr raw_row
       \<and> row \<in> set [[(''entity'', PyStr ''cat''), (''frequency'', PyNone)]]
       \<and> length row = length (remdups (return_cols_of ''entity:%String,frequency:%Integer'')))
   \<and> (\<exists>e'. fst (iknow_query
         (example_iris ''entity:%String,frequency:%Integer'' ''&result,domainid:%Integer,page:%Integer=1''
            (writes [(1, ''cat'')]) (Inl IndexError))
         ''%iKnow.Queries.EntityAPI'' ''GetTop'' (PyInt 1) [] [] (world_with_macros [])) = Inl e')"
proof -
  let ?rt = "''entity:%String,frequency:%Integer''"
  let ?spec = "''&result,domainid:%Integer,page:%Integer=1''"
  let ?api = "''%iKnow.Queries.EntityAPI''"
  let ?w = "world_with_macros []"
  let ?argv = "outGlo_of [] # PyInt 1 # [PyStr ''1'']"
  let ?row = "[(''entity'', PyStr ''cat''), (''frequency'', PyNone)]"
  have types: "return_types_of ?rt = Inr [''%String'', ''%Integer'']" by code_simp
  have node: "(0::int) < 1" by simp
  {
    fix past_end :: "error + val"
    let ?lib = "example_iris ?rt ?spec (writes [(1, ''cat'')]) past_end"
    let ?w1 = "snd (classMethodVoid ?lib ?api ''GetTop'' ?argv ?w)"
    have rt: "Default_of ?lib (?api @ ''||'' @ ''GetTop'' @ ''RT'') = Inr ?rt"
      by (simp add: example_iris_def)
    have spec: "FormalSpec_of ?lib (?api @ ''||'' @ ''GetTop'') = Inr ?spec"
      by (simp add: example_iris_def)
    have "full_args_of ascii_upper ?w [] [] ?spec = Inr [PyStr ''1'']" by code_simp
    then have bound: "full_args_of (str_upper ?lib) ?w [] [] ?spec = Inr [PyStr ''1'']"
      by (simp add: example_iris_def)
    have "fst (classMethodVoid ?lib ?api ''GetTop'' ?argv ?w) = None"
      by (simp add: classMethodVoid_def example_iris_def writes_def)
    then have called: "classMethodVoid ?lib ?api ''GetTop'' ?argv ?w = (None, ?w1)"
      by (metis prod.collapse)
    have "globals ?w1 (outGlo_of []) = [(1, ''cat'')]"
      by (simp add: classMethodVoid_def example_iris_def writes_def)
    then have stored: "map_of (globals ?w1 (outGlo_of [])) 1 = Some ''cat''" by simp
    note short_payload_keeps_every_column [OF rt types spec bound called] stored
  }
  note facts = this
  have rows: "fst (iknow_query (example_iris ?rt ?spec (writes [(1, ''cat'')]) (Inr PyNone))
                ?api ''GetTop'' (PyInt 1) [] [] ?w) = Inr [?row]"
    by code_simp
  from facts(1) [of "Inr PyNone"] rows facts(2) [of "Inr PyNone"] node
  have returned: "\<exists>raw_row row.
         IRISList (example_iris ?rt ?spec (writes [(1, ''cat'')]) (Inr PyNone)) ''cat'' = Inr raw_row
       \<and> row \<in> set [?row]
       \<and> length row = length (remdups (return_cols_of ?rt))"
    by blast
  have short: "IRISList (example_iris ?rt ?spec (writes [(1, ''cat'')]) (Inl IndexError)) ''cat'' = Inr [''cat'']
       \<and> (1::nat) < length (return_cols_of ?rt)
       \<and> IRISList_get (example_iris ?rt ?spec (writes [(1, ''cat'')]) (Inl IndexError)) [''cat''] (1 + 1)
           = Inl IndexError"
    by code_simp
  from facts(1) [of "Inl IndexError"] facts(2) [of "Inl IndexError"] node short
  have raised: "\<exists>e'. fst (iknow_query (example_iris ?rt ?spec (writes [(1, ''cat'')]) (Inl IndexError))
                  ?api ''GetTop'' (PyInt 1) [] [] ?w) = Inl e'"
    by blast
  from rows returned raised show ?thesis by blast
qed

text \<open>
  The specification has the trailing columns left out and no error. A node with the
  single field \<open>cat\<close> under a schema of two columns gives a row of two pairs when
  \<open>get\<close> answers \<open>None\<close> past the end, and an \<open>IndexError\<close> when \<open>get\<close> raises there.
\<close>

theorem short_payload_counterexample:
  "IRISList (example_iris ''entity:%String,frequency:%Integer'' ''&result,domainid:%Integer,page:%Integer=1''
        (writes [(1, ''cat'')]) (Inr PyNone)) ''cat'' = Inr [''cat'']
   \<and> length [''cat''] < length (return_cols_of ''entity:%String,frequency:%Integer'')
   \<and> fst (iknow_query
       (example_iris ''entity:%String,frequency:%Integer'' ''&result,domainid:%Integer,page:%Integer=1''
          (writes [(1, ''cat'')]) (Inr PyNone))
       ''%iKnow.Queries.EntityAPI'' ''GetTop'' (PyInt 1) [] [] (world_with_macros []))
     = Inr [[(''entity'', PyStr ''cat''), (''frequency'', PyNone)]]
   \<and> length [(''entity'', PyStr ''cat''), (''frequency'', PyNone)]
       \<noteq> min (length [''cat'']) (length (return_cols_of ''entity:%String,frequency:%Integer''))
   \<and> fst (iknow_query
       (example_iris ''entity:%String,frequency:%Integer'' ''&result,domainid:%Integer,page:%Integer=1''
          (writes [(1, ''cat'')]) (Inl IndexError))
       ''%iKnow.Queries.EntityAPI'' ''GetTop'' (PyInt 1) [] [] (world_with_macros []))
     = Inl IndexError"
  by code_simp

subsection \<open>The output global after the call\<close>

text \<open>
  C5 (as the cell behaves). \<open>irispy.kill(outGlo)\<close> is the last statement before
  \<open>return\<close> and nothing catches an exception. When \<open>iknow_query\<close> returns, the class
  method has been called and the output global is empty. When it raises after the
  class method has been called, the world is the one that call left: nothing has
  been killed.
\<close>

theorem purged_only_on_return:
  "(iknow_query lib api method domain_id args kwargs w = (Inr result, w')
      \<longrightarrow> globals w' (outGlo_of kwargs) = [] \<and> invoked w' \<noteq> invoked w)
   \<and> (iknow_query lib api method domain_id args kwargs w = (Inl e, w') \<and> invoked w' \<noteq> invoked w
      \<longrightarrow> (\<exists>full_args r.
             classMethodVoid lib api method (outGlo_of kwargs # domain_id # full_args) w = (r, w')))"
proof (intro conjI impI)
  assume run: "iknow_query lib api method domain_id args kwargs w = (Inr result, w')"
  from iknow_query_returns [OF run] obtain full_args and w1 :: world where
    call: "classMethodVoid lib api method (outGlo_of kwargs # domain_id # full_args) w = (None, w1)"
    and w': "w' = kill (outGlo_of kwargs) w1"
    by auto
  show "globals w' (outGlo_of kwargs) = []" using w' by (simp add: kill_def)
  show "invoked w' \<noteq> invoked w"
    using w' classMethodVoid_invoked [OF call] by (simp add: invoked_kill)
next
  assume "iknow_query lib api method domain_id args kwargs w = (Inl e, w') \<and> invoked w' \<noteq> invoked w"
  then show "\<exists>full_args r.
             classMethodVoid lib api method (outGlo_of kwargs # domain_id # full_args) w = (r, w')"
    using iknow_query_raises by blast
qed

theorem purged_only_on_return_witness:
  "globals (snd (iknow_query
       (example_iris ''entity:%String'' ''&result,domainid:%Integer'' (writes [(1, ''cat'')]) (Inr PyNone))
       ''%iKnow.Queries.EntityAPI'' ''GetTop'' (PyInt 1) [] [] (world_with_macros [])))
     (outGlo_of []) = []
   \<and> (\<exists>full_args r.
         classMethodVoid
           (example_iris ''entity:%String'' ''&result,domainid:%Integer''
              (writes_then_raises [(1, ''cat'')]) (Inr PyNone))
           ''%iKnow.Queries.EntityAPI'' ''GetTop'' (outGlo_of [] # PyInt 1 # full_args) (world_with_macros [])
         = (r, snd (iknow_query
              (example_iris ''entity:%String'' ''&result,domainid:%Integer''
                 (writes_then_raises [(1, ''cat'')]) (Inr PyNone))
              ''%iKnow.Queries.EntityAPI'' ''GetTop'' (PyInt 1) [] [] (world_with_macros []))))"
proof -
  let ?good = "iknow_query
       (example_iris ''entity:%String'' ''&result,domainid:%Integer'' (writes [(1, ''cat'')]) (Inr PyNone))
       ''%iKnow.Queries.EntityAPI'' ''GetTop'' (PyInt 1) [] [] (world_with_macros [])"
  let ?bad = "iknow_query
       (example_iris ''entity:%String'' ''&result,domainid:%Integer''
          (writes_then_raises [(1, ''cat'')]) (Inr PyNone))
       ''%iKnow.Queries.EntityAPI'' ''GetTop'' (PyInt 1) [] [] (world_with_macros [])"
  have "fst ?good = Inr [[(''entity'', PyStr ''cat'')]]" by code_simp
  then have good: "?good = (Inr [[(''entity'', PyStr ''cat'')]], snd ?good)" by (metis prod.collapse)
  have "fst ?bad = Inl (IrisError ''<UNDEFINED>'')" by code_simp
  then have bad: "?bad = (Inl (IrisError ''<UNDEFINED>''), snd ?bad)" by (metis prod.collapse)
  have called: "invoked (snd ?bad) \<noteq> invoked (world_with_macros [])" by code_simp
  from purged_only_on_return
         [of _ "''%iKnow.Queries.EntityAPI''" "''GetTop''" "PyInt 1" "[]" "[]" "world_with_macros []"] good
  have "globals (snd ?good) (outGlo_of []) = []" by blast
  moreover
  from purged_only_on_return
         [of _ "''%iKnow.Queries.EntityAPI''" "''GetTop''" "PyInt 1" "[]" "[]" "world_with_macros []"]
       bad called
  have "\<exists>full_args r.
         classMethodVoid
           (example_iris ''entity:%String'' ''&result,domainid:%Integer''
              (writes_then_raises [(1, ''cat'')]) (Inr PyNone))
           ''%iKnow.Queries.EntityAPI'' ''GetTop'' (outGlo_of [] # PyInt 1 # full_args) (world_with_macros [])
         = (r, snd ?bad)" by blast
  ultimately show ?thesis by blast
qed

text \<open>
  The specification has the global purged on the raising paths too. Here the class
  method stores a node and fails, and then a row read fails: both times the node is
  still in \<open>^result\<close> afterwards.
\<close>

theorem purge_on_every_exit_counterexample:
  "fst (iknow_query
       (example_iris ''entity:%String'' ''&result,domainid:%Integer''
          (writes_then_raises [(1, ''cat'')]) (Inr PyNone))
       ''%iKnow.Queries.EntityAPI'' ''GetTop'' (PyInt 1) [] [] (world_with_macros []))
     = Inl (IrisError ''<UNDEFINED>'')
   \<and> globals (snd (iknow_query
       (example_iris ''entity:%String'' ''&result,domainid:%Integer''
          (writes_then_raises [(1, ''cat'')]) (Inr PyNone))
       ''%iKnow.Queries.EntityAPI'' ''GetTop'' (PyInt 1) [] [] (world_with_macros [])))
       (PyStr ''^result'') = [(1, ''cat'')]
   \<and> fst (iknow_query
       (example_iris ''entity:%String,frequency:%Integer'' ''&result,domainid:%Integer''
          (writes [(1, ''cat'')]) (Inl IndexError))
       ''%iKnow.Queries.EntityAPI'' ''GetTop'' (PyInt 1) [] [] (world_with_macros []))
     = Inl IndexError
   \<and> globals (snd (iknow_query
       (example_iris ''entity:%String,frequency:%Integer'' ''&result,domainid:%Integer''
          (writes [(1, ''cat'')]) (Inl IndexError))
       ''%iKnow.Queries.EntityAPI'' ''GetTop'' (PyInt 1) [] [] (world_with_macros [])))
       (PyStr ''^result'') = [(1, ''cat'')]"
  by code_simp

end
